theory Spec2Isabelle
  imports Main
begin

section \<open>Values, tokens and service definitions\<close>

text \<open>
  An \<open>InjectionToken\<close> is compared by reference only, so a token is the address at which it
  was allocated. JavaScript values are kept as far as the container looks at them: the
  container only ever tests a value for truthiness. Numbers are integers here.
\<close>

type_synonym token = nat

datatype jsval = JUndefined | JNull | JBool bool | JNum int | JStr string | JObj nat

fun truthy :: "jsval \<Rightarrow> bool" where
  "truthy JUndefined = False"
| "truthy JNull = False"
| "truthy (JBool b) = b"
| "truthy (JNum n) = (n \<noteq> 0)"
| "truthy (JStr s) = (s \<noteq> [])"
| "truthy (JObj a) = True"

datatype lifetime = Singleton | Transient | Scoped

text \<open>
  The errors of the container. \<open>DuplicateRegistration\<close> is the name the specification gives
  to an error; no statement of \<open>container.ts\<close> raises it. \<open>FactoryFailure\<close> carries the value a
  user factory has thrown.
\<close>

datatype error =
    DuplicateRegistration
  | CyclicDependency
  | InheritanceMismatch
  | MissingRegistration
  | FactoryFailure jsval

text \<open>
  A factory receives the resolved dependencies and runs in a world \<open>'w\<close> of its own (the
  variables it closes over, the objects it allocates); it returns a value or throws one
  (\<open>Inl\<close>). The world of the factories is disjoint from the resolvers: a factory does not
  call back into the container.
\<close>

type_synonym 'w ServiceFactory = "jsval list \<Rightarrow> 'w \<Rightarrow> (jsval + jsval) \<times> 'w"

record 'w ServiceDefinition =
  requires :: "token list"
  lifetime :: lifetime
  factory :: "'w ServiceFactory"

definition makeServiceDefinition ::
  "token list \<Rightarrow> lifetime \<Rightarrow> 'w ServiceFactory \<Rightarrow> 'w ServiceDefinition" where
  "makeServiceDefinition tokens lt f = \<lparr>requires = tokens, lifetime = lt, factory = f\<rparr>"

definition fromValue :: "token list \<Rightarrow> jsval \<Rightarrow> 'w ServiceDefinition" where
  "fromValue tokens v = makeServiceDefinition tokens Singleton (\<lambda>context w. (Inr v, w))"

section \<open>JavaScript maps\<close>

text \<open>
  A \<open>Map\<close> keeps its entries in insertion order; \<open>set\<close> on a key that is present replaces the
  value in place, on a new key it appends the entry.
\<close>

type_synonym ('k, 'v) jsmap = "('k \<times> 'v) list"

definition map_get :: "('k, 'v) jsmap \<Rightarrow> 'k \<Rightarrow> 'v option" where
  "map_get m k = map_of m k"

definition map_keys :: "('k, 'v) jsmap \<Rightarrow> 'k list" where
  "map_keys m = map fst m"

definition map_has :: "('k, 'v) jsmap \<Rightarrow> 'k \<Rightarrow> bool" where
  "map_has m k = (k \<in> set (map_keys m))"

fun map_set :: "'k \<Rightarrow> 'v \<Rightarrow> ('k, 'v) jsmap \<Rightarrow> ('k, 'v) jsmap" where
  "map_set k v [] = [(k, v)]"
| "map_set k v (e # es) = (if fst e = k then (k, v) # es else e # map_set k v es)"

section \<open>The container builder\<close>

text \<open>
  The \<open>Map\<close> objects of the builder live in a heap, a list indexed by address, because
  \<open>provide\<close> copies the map of its container and then writes to the copy: whether an older
  container sees the write depends on which object is written. \<open>new Map(map)\<close> appends a copy
  of the entries at a fresh address.
\<close>

type_synonym 'w registrations = "(token, 'w ServiceDefinition) jsmap"

type_synonym 'w mapHeap = "'w registrations list"

record Container =
  ContainerRequiredKey :: "token list"
  ContainerProvidedKey :: "token list"
  ContainerMapKey :: nat

definition createInnerContainer :: "token list \<Rightarrow> token list \<Rightarrow> nat \<Rightarrow> Container" where
  "createInnerContainer required provided m =
     \<lparr>ContainerRequiredKey = required, ContainerProvidedKey = provided, ContainerMapKey = m\<rparr>"

definition heap_set :: "nat \<Rightarrow> token \<Rightarrow> 'w ServiceDefinition \<Rightarrow> 'w mapHeap \<Rightarrow> 'w mapHeap" where
  "heap_set a k v h = h[a := map_set k v (h ! a)]"

text \<open>\<open>provide\<close> of a container made by \<open>createInnerContainer\<close>. No path of it throws.\<close>

definition provide ::
  "Container \<Rightarrow> token \<Rightarrow> 'w ServiceDefinition \<Rightarrow> 'w mapHeap \<Rightarrow> error + (Container \<times> 'w mapHeap)" where
  "provide c tok v h =
     (let nextRequired = ContainerRequiredKey c @ requires v;
          nextProvided = ContainerProvidedKey c @ [tok];
          nextMap = length h;
          h1 = h @ [h ! ContainerMapKey c];
          h2 = heap_set nextMap tok v h1
      in Inr (createInnerContainer nextRequired nextProvided nextMap, h2))"

text \<open>\<open>provide\<close> of the empty container returned by \<open>createContainer\<close>.\<close>

definition createContainer_provide ::
  "token \<Rightarrow> 'w ServiceDefinition \<Rightarrow> 'w mapHeap \<Rightarrow> error + (Container \<times> 'w mapHeap)" where
  "createContainer_provide tok v h =
     (let required = requires v;
          provided = [tok];
          m = length h;
          h1 = h @ [[]];
          h2 = heap_set m tok v h1
      in Inr (createInnerContainer required provided m, h2))"

definition container_map :: "'w mapHeap \<Rightarrow> Container \<Rightarrow> 'w registrations" where
  "container_map h c = h ! ContainerMapKey c"

section \<open>Cycle detection\<close>

type_synonym Graph = "(token, token list) jsmap"

fun graphFromServiceMap_loop :: "'w registrations \<Rightarrow> Graph \<Rightarrow> Graph" where
  "graphFromServiceMap_loop [] graph = graph"
| "graphFromServiceMap_loop ((key, v) # entries) graph =
     graphFromServiceMap_loop entries (map_set key (requires v) graph)"

definition graphFromServiceMap :: "'w registrations \<Rightarrow> Graph" where
  "graphFromServiceMap m = graphFromServiceMap_loop m []"

text \<open>\<open>graph.get(node) ?? []\<close>\<close>

definition neighbors :: "Graph \<Rightarrow> token \<Rightarrow> token list" where
  "neighbors graph node = (case map_get graph node of None \<Rightarrow> [] | Some ns \<Rightarrow> ns)"

definition graph_nodes :: "Graph \<Rightarrow> token set" where
  "graph_nodes graph = set (map_keys graph) \<union> (\<Union>e \<in> set graph. set (snd e))"

text \<open>
  \<open>hasCycle\<close> threads the two mutable sets \<open>visited\<close> and \<open>recStack\<close>; the model returns them
  with the answer. On \<open>true\<close> the source returns at once, leaving \<open>recStack\<close> as it is.
\<close>

function hasCycle ::
    "Graph \<Rightarrow> token \<Rightarrow> token set \<times> token set \<Rightarrow> bool \<times> token set \<times> token set"
  and hasCycle_loop ::
    "Graph \<Rightarrow> token list \<Rightarrow> token set \<times> token set \<Rightarrow> bool \<times> token set \<times> token set" where
  "hasCycle graph node (visited, recStack) =
     (if node \<in> recStack then (True, visited, recStack)
      else if node \<in> visited then (False, visited, recStack)
      else (case hasCycle_loop graph (neighbors graph node)
                   (insert node visited, insert node recStack) of
              (True, s) \<Rightarrow> (True, s)
            | (False, visited', recStack') \<Rightarrow> (False, visited', recStack' - {node})))"
| "hasCycle_loop graph [] s = (False, s)"
| "hasCycle_loop graph (neighbor # rest) s =
     (case hasCycle graph neighbor s of
        (True, s') \<Rightarrow> (True, s')
      | (False, s') \<Rightarrow> hasCycle_loop graph rest s')"
  by pat_completeness auto

fun isCyclic_loop :: "Graph \<Rightarrow> token list \<Rightarrow> token set \<times> token set \<Rightarrow> bool" where
  "isCyclic_loop graph [] s = False"
| "isCyclic_loop graph (node # rest) s =
     (case hasCycle graph node s of
        (True, s') \<Rightarrow> True
      | (False, s') \<Rightarrow> isCyclic_loop graph rest s')"

definition isCyclic :: "Graph \<Rightarrow> bool" where
  "isCyclic graph = isCyclic_loop graph (map_keys graph) ({}, {})"

definition checkForCycles :: "'w registrations \<Rightarrow> error + unit" where
  "checkForCycles m =
     (if isCyclic (graphFromServiceMap m) then Inl CyclicDependency else Inr ())"

section \<open>Resolvers\<close>

text \<open>
  Resolvers are objects with a mutable cache, and a child holds a reference to its parent:
  a \<open>resolve\<close> on a child writes to the cache of the parent. So the resolvers live in a store,
  a list indexed by address, and \<open>parent\<close> is an address. The registrations of a resolver
  are the entries of the \<open>Map\<close> it was given; that \<open>Map\<close> is not written after the resolver
  has been made.
\<close>

record 'w InternalResolver =
  registrations :: "'w registrations"
  parent :: "nat option"
  cache :: "(token, jsval) jsmap"

type_synonym 'w resolvers = "'w InternalResolver list"

fun InternalCheckInheriting_loop :: "token list \<Rightarrow> 'w registrations \<Rightarrow> error + unit" where
  "InternalCheckInheriting_loop [] inheriting = Inr ()"
| "InternalCheckInheriting_loop (key # rest) inheriting =
     (if \<not> map_has inheriting key then Inl InheritanceMismatch
      else InternalCheckInheriting_loop rest inheriting)"

definition InternalCheckInheriting :: "'w InternalResolver \<Rightarrow> 'w registrations \<Rightarrow> error + unit" where
  "InternalCheckInheriting this inheriting =
     InternalCheckInheriting_loop (map_keys (registrations this)) inheriting"

text \<open>
  \<open>resolver(parent?)\<close> of a container: the inheritance check when a parent is given, then the
  cycle check, then \<open>new InternalResolver(map, parent)\<close> at a fresh address of the store.
\<close>

definition resolver ::
  "Container \<Rightarrow> nat option \<Rightarrow> 'w mapHeap \<Rightarrow> 'w resolvers \<Rightarrow> error + (nat \<times> 'w resolvers)" where
  "resolver c par h rs =
     (let m = h ! ContainerMapKey c in
      case (case par of
              Some p \<Rightarrow> InternalCheckInheriting (rs ! p) m
            | None \<Rightarrow> Inr ()) of
        Inl e \<Rightarrow> Inl e
      | Inr u \<Rightarrow>
          (case checkForCycles m of
             Inl e \<Rightarrow> Inl e
           | Inr u' \<Rightarrow>
               Inr (length rs, rs @ [\<lparr>registrations = m, parent = par, cache = []\<rparr>])))"

section \<open>Resolution\<close>

text \<open>
  The state of a resolution is the store of resolvers and the world of the factories. A
  throw keeps the writes made before it, so an outcome carries the state in both cases.
  \<open>InternalResolve\<close> and \<open>resolve\<close> call each other through the \<open>requires\<close> of a definition,
  which terminates only on suitable registrations: the functions take fuel, the depth of
  calls allowed, and \<open>None\<close> is a resolution that has not returned within it. On the
  stores that \<open>resolver\<close> makes enough fuel always gives a result (\<open>resolve_terminates\<close>).
\<close>

type_synonym 'w state = "'w resolvers \<times> 'w"

type_synonym ('a, 'w) outcome = "((error + 'a) \<times> 'w state) option"

text \<open>\<open>this.cache.get(token)\<close>, which is \<open>undefined\<close> for a token without an entry.\<close>

definition cache_get :: "'w resolvers \<Rightarrow> nat \<Rightarrow> token \<Rightarrow> jsval" where
  "cache_get rs r tok = (case map_get (cache (rs ! r)) tok of None \<Rightarrow> JUndefined | Some v \<Rightarrow> v)"

text \<open>\<open>this.cache.set(token, instance)\<close>\<close>

definition cache_set :: "nat \<Rightarrow> token \<Rightarrow> jsval \<Rightarrow> 'w resolvers \<Rightarrow> 'w resolvers" where
  "cache_set r tok v rs = rs[r := (rs ! r)\<lparr>cache := map_set tok v (cache (rs ! r))\<rparr>]"

text \<open>\<open>this.cache.set(token, instance); return instance\<close> after an instantiation.\<close>

definition cache_instance :: "nat \<Rightarrow> token \<Rightarrow> (jsval, 'w) outcome \<Rightarrow> (jsval, 'w) outcome" where
  "cache_instance r tok out =
     (case out of
        None \<Rightarrow> None
      | Some (Inl e, s) \<Rightarrow> Some (Inl e, s)
      | Some (Inr inst, (rs, w)) \<Rightarrow> Some (Inr inst, (cache_set r tok inst rs, w)))"

text \<open>
  \<open>instantiate\<close> is the expression
  \<open>definition.instance(...definition.requires.map((token) => this.resolve(token)))\<close>, written
  three times in the source; \<open>resolveAll\<close> is its \<open>requires.map\<close>, left to right, ended by the
  first throw. Where the resolver has no parent the probe of the parent is skipped, which
  is a probe that answers \<open>undefined\<close>.
\<close>

function internalResolve :: "nat \<Rightarrow> nat \<Rightarrow> token \<Rightarrow> 'w state \<Rightarrow> (jsval, 'w) outcome"
  and resolve :: "nat \<Rightarrow> nat \<Rightarrow> token \<Rightarrow> 'w state \<Rightarrow> (jsval, 'w) outcome"
  and resolveAll :: "nat \<Rightarrow> nat \<Rightarrow> token list \<Rightarrow> 'w state \<Rightarrow> (jsval list, 'w) outcome"
  and instantiate :: "nat \<Rightarrow> nat \<Rightarrow> 'w ServiceDefinition \<Rightarrow> 'w state \<Rightarrow> (jsval, 'w) outcome" where
  "internalResolve 0 r tok s = None"
| "internalResolve (Suc n) r tok (rs, w) =
     (case map_get (registrations (rs ! r)) tok of
        None \<Rightarrow> Some (Inr JUndefined, (rs, w))
      | Some d \<Rightarrow>
          (case lifetime d of
             Scoped \<Rightarrow>
               (if truthy (cache_get rs r tok) then Some (Inr (cache_get rs r tok), (rs, w))
                else cache_instance r tok (instantiate n r d (rs, w)))
           | Singleton \<Rightarrow>
               (case (case parent (rs ! r) of
                        None \<Rightarrow> Some (Inr JUndefined, (rs, w))
                      | Some p \<Rightarrow> internalResolve n p tok (rs, w)) of
                  None \<Rightarrow> None
                | Some (Inl e, s1) \<Rightarrow> Some (Inl e, s1)
                | Some (Inr resolution, (rs1, w1)) \<Rightarrow>
                    (if truthy resolution then Some (Inr resolution, (rs1, w1))
                     else if truthy (cache_get rs1 r tok)
                       then Some (Inr (cache_get rs1 r tok), (rs1, w1))
                     else cache_instance r tok (instantiate n r d (rs1, w1))))
           | Transient \<Rightarrow>
               (case (case parent (rs ! r) of
                        None \<Rightarrow> Some (Inr JUndefined, (rs, w))
                      | Some p \<Rightarrow> internalResolve n p tok (rs, w)) of
                  None \<Rightarrow> None
                | Some (Inl e, s1) \<Rightarrow> Some (Inl e, s1)
                | Some (Inr resolution, (rs1, w1)) \<Rightarrow>
                    (if truthy resolution then Some (Inr resolution, (rs1, w1))
                     else instantiate n r d (rs1, w1)))))"
| "resolve n r tok s =
     (case internalResolve n r tok s of
        None \<Rightarrow> None
      | Some (Inl e, s') \<Rightarrow> Some (Inl e, s')
      | Some (Inr resolved, s') \<Rightarrow>
          (if \<not> truthy resolved then Some (Inl MissingRegistration, s')
           else Some (Inr resolved, s')))"
| "resolveAll n r [] s = Some (Inr [], s)"
| "resolveAll n r (tok # rest) s =
     (case resolve n r tok s of
        None \<Rightarrow> None
      | Some (Inl e, s') \<Rightarrow> Some (Inl e, s')
      | Some (Inr v, s') \<Rightarrow>
          (case resolveAll n r rest s' of
             None \<Rightarrow> None
           | Some (Inl e, s'') \<Rightarrow> Some (Inl e, s'')
           | Some (Inr vs, s'') \<Rightarrow> Some (Inr (v # vs), s'')))"
| "instantiate n r d s =
     (case resolveAll n r (requires d) s of
        None \<Rightarrow> None
      | Some (Inl e, s') \<Rightarrow> Some (Inl e, s')
      | Some (Inr args, (rs', w')) \<Rightarrow>
          (case factory d args w' of
             (Inl thrown, w'') \<Rightarrow> Some (Inl (FactoryFailure thrown), (rs', w''))
           | (Inr inst, w'') \<Rightarrow> Some (Inr inst, (rs', w''))))"
  by pat_completeness auto
termination
  by (relation "inv_image (less_than <*lex*> less_than)
       (\<lambda>x. case x of
          Inl (Inl (n, r, tok, s)) \<Rightarrow> (n, 0::nat)
        | Inl (Inr (n, r, tok, s)) \<Rightarrow> (n, 1)
        | Inr (Inl (n, r, toks, s)) \<Rightarrow> (n, 2 + length toks)
        | Inr (Inr (n, r, d, s)) \<Rightarrow> (n, 3 + length (requires d)))")
     auto

section \<open>Stores of resolvers\<close>

text \<open>
  \<open>in_chain rs r a\<close>: the resolver at \<open>a\<close> is the one at \<open>r\<close> or one of its ancestors. In a
  valid store a parent has a smaller address than its child, as it has when the parent
  exists before \<open>resolver(parent)\<close> makes the child. \<open>evolves r rs rs'\<close> is what a resolution
  on \<open>r\<close> may do to the store: registrations and parents stay, resolvers outside the chain
  of \<open>r\<close> stay as a whole, and no cache changes at a token that its resolver does not
  register or registers as transient.
\<close>

inductive in_chain :: "'w resolvers \<Rightarrow> nat \<Rightarrow> nat \<Rightarrow> bool" for rs where
  self: "in_chain rs r r"
| up: "parent (rs ! r) = Some p \<Longrightarrow> in_chain rs p a \<Longrightarrow> in_chain rs r a"

definition valid_store :: "'w resolvers \<Rightarrow> bool" where
  "valid_store rs = (\<forall>a < length rs. \<forall>p. parent (rs ! a) = Some p \<longrightarrow> p < a)"

definition same_shape :: "'w resolvers \<Rightarrow> 'w resolvers \<Rightarrow> bool" where
  "same_shape rs rs' =
     (length rs' = length rs
      \<and> (\<forall>a < length rs. registrations (rs' ! a) = registrations (rs ! a)
                          \<and> parent (rs' ! a) = parent (rs ! a)))"

definition never_cached :: "'w InternalResolver \<Rightarrow> token \<Rightarrow> bool" where
  "never_cached x k =
     (case map_get (registrations x) k of None \<Rightarrow> True | Some d \<Rightarrow> lifetime d = Transient)"

definition evolves :: "nat \<Rightarrow> 'w resolvers \<Rightarrow> 'w resolvers \<Rightarrow> bool" where
  "evolves r rs rs' =
     (same_shape rs rs'
      \<and> (\<forall>a < length rs.
            (\<not> in_chain rs r a \<longrightarrow> rs' ! a = rs ! a)
            \<and> (\<forall>k. never_cached (rs ! a) k \<longrightarrow>
                   map_get (cache (rs' ! a)) k = map_get (cache (rs ! a)) k)))"

text \<open>
  The registrations of a child contain every token its parent registers; the inheritance
  check of \<open>resolver(parent)\<close> establishes it.
\<close>

definition keys_inherited :: "'w resolvers \<Rightarrow> bool" where
  "keys_inherited rs =
     (\<forall>a < length rs. \<forall>p. parent (rs ! a) = Some p \<longrightarrow>
        set (map_keys (registrations (rs ! p))) \<subseteq> set (map_keys (registrations (rs ! a))))"

text \<open>
  The first step of the singleton and transient cases: the answer of the parent, or
  \<open>undefined\<close> where there is no parent to ask.
\<close>

definition probe_parent :: "nat \<Rightarrow> nat \<Rightarrow> token \<Rightarrow> 'w state \<Rightarrow> (jsval, 'w) outcome" where
  "probe_parent n r tok s =
     (case parent (fst s ! r) of
        None \<Rightarrow> Some (Inr JUndefined, s)
      | Some p \<Rightarrow> internalResolve n p tok s)"

text \<open>
  A factory that never returns a falsy value; and a chain of resolvers on which every
  definition of a token has such a factory and a lifetime other than transient.
\<close>

definition truthy_factory :: "'w ServiceDefinition \<Rightarrow> bool" where
  "truthy_factory d = (\<forall>args w inst w'. factory d args w = (Inr inst, w') \<longrightarrow> truthy inst)"

definition chain_settles :: "'w resolvers \<Rightarrow> nat \<Rightarrow> token \<Rightarrow> bool" where
  "chain_settles rs r tok =
     (\<forall>a. in_chain rs r a \<longrightarrow>
        (\<forall>d. map_get (registrations (rs ! a)) tok = Some d \<longrightarrow>
           lifetime d \<noteq> Transient \<and> truthy_factory d))"

section \<open>Construction of an instance, as specified\<close>

text \<open>
  The arguments of a factory as the specification describes them, in terms of \<open>resolve\<close> alone:
  \<open>resolved_in_order n r toks s args s'\<close> holds when \<open>args\<close> has one value per token of \<open>toks\<close>, in
  the same order, each the instance that \<open>resolve\<close> returns for its token in the state that the
  resolution of the earlier tokens has left, the first in \<open>s\<close> and the last leaving \<open>s'\<close>.
\<close>

fun resolved_in_order ::
  "nat \<Rightarrow> nat \<Rightarrow> token list \<Rightarrow> 'w state \<Rightarrow> jsval list \<Rightarrow> 'w state \<Rightarrow> bool" where
  "resolved_in_order n r [] s args s' = (args = [] \<and> s' = s)"
| "resolved_in_order n r (tok # rest) s args s' =
     (case args of
        [] \<Rightarrow> False
      | v # vs \<Rightarrow>
          (case resolve n r tok s of
             Some (Inr v', s1) \<Rightarrow> v' = v \<and> resolved_in_order n r rest s1 vs s'
           | _ \<Rightarrow> False))"

text \<open>
  \<open>cached_in r tok inst rs rs'\<close>: the store \<open>rs'\<close> is the store \<open>rs\<close> with \<open>inst\<close> in the cache of
  the resolver at \<open>r\<close> under \<open>tok\<close>, and nothing else changed.
\<close>

definition cached_in :: "nat \<Rightarrow> token \<Rightarrow> jsval \<Rightarrow> 'w resolvers \<Rightarrow> 'w resolvers \<Rightarrow> bool" where
  "cached_in r tok inst rs rs' =
     (length rs' = length rs
      \<and> (\<forall>a < length rs. a \<noteq> r \<longrightarrow> rs' ! a = rs ! a)
      \<and> registrations (rs' ! r) = registrations (rs ! r)
      \<and> parent (rs' ! r) = parent (rs ! r)
      \<and> map_of (cache (rs' ! r)) = (map_of (cache (rs ! r)))(tok \<mapsto> inst))"

text \<open>
  \<open>parent_declines n r tok s s1\<close>: the resolver at \<open>r\<close>, asking its parent for the token in the
  state \<open>s\<close>, gets no instance and continues in the state \<open>s1\<close>. Either it has no parent, and
  \<open>s1\<close> is \<open>s\<close>, or \<open>InternalResolve\<close> of the parent returns a falsy value and leaves \<open>s1\<close>.
\<close>

definition parent_declines :: "nat \<Rightarrow> nat \<Rightarrow> token \<Rightarrow> 'w state \<Rightarrow> 'w state \<Rightarrow> bool" where
  "parent_declines n r tok s s1 =
     (case parent (fst s ! r) of
        None \<Rightarrow> s1 = s
      | Some p \<Rightarrow>
          (case internalResolve n p tok s of
             Some (Inr u, s1') \<Rightarrow> \<not> truthy u \<and> s1' = s1
           | _ \<Rightarrow> False))"

section \<open>Dependency graphs\<close>

text \<open>
  The edges of the graph the detector walks, and the property it maintains: the tokens
  that are visited and off the recursion stack are closed under the edges and lie on no
  cycle. \<open>dep_edges\<close> is the graph of a registry as the specification describes it, an edge from
  each registered token to every entry of the \<open>requires\<close> of its definition.
\<close>

definition edges :: "Graph \<Rightarrow> (token \<times> token) set" where
  "edges g = {(a, b). b \<in> set (neighbors g a)}"

definition black_ok :: "Graph \<Rightarrow> token set \<times> token set \<Rightarrow> bool" where
  "black_ok g s =
     ((\<forall>b \<in> fst s - snd s. \<forall>c. (b, c) \<in> edges g \<longrightarrow> c \<in> fst s - snd s)
      \<and> (\<forall>b \<in> fst s - snd s. (b, b) \<notin> (edges g)\<^sup>+))"

definition dep_edges :: "'w registrations \<Rightarrow> (token \<times> token) set" where
  "dep_edges m = {(a, b). \<exists>d. map_get m a = Some d \<and> b \<in> set (requires d)}"

definition dependency_cycle :: "'w registrations \<Rightarrow> bool" where
  "dependency_cycle m = (\<exists>t. (t, t) \<in> (dep_edges m)\<^sup>+)"

text \<open>
  The stores that \<open>resolver\<close> makes, starting from the empty store: parents first, every
  child registering the tokens of its parent, every registry without a cycle.
\<close>

definition wf_store :: "'w resolvers \<Rightarrow> bool" where
  "wf_store rs =
     (valid_store rs \<and> keys_inherited rs
      \<and> (\<forall>a < length rs. \<not> dependency_cycle (registrations (rs ! a))))"

section \<open>Examples\<close>

text \<open>Factories, registrations and resolvers for the concrete runs further down.\<close>

text \<open>
  A factory that allocates: the world is the number of objects allocated so far, and each
  call returns the object at the next address.
\<close>

definition alloc :: "nat ServiceFactory" where
  "alloc args w = (Inr (JObj w), Suc w)"

definition svc :: "token list \<Rightarrow> lifetime \<Rightarrow> nat ServiceDefinition" where
  "svc tokens lt = makeServiceDefinition tokens lt alloc"

text \<open>A resolver without parent and with an empty cache, as \<open>resolver()\<close> makes it.\<close>

definition root_of :: "nat registrations \<Rightarrow> nat InternalResolver" where
  "root_of m = \<lparr>registrations = m, parent = None, cache = []\<rparr>"

text \<open>A resolver with a parent and an empty cache, as \<open>resolver(parent)\<close> makes it.\<close>

definition child_of :: "nat \<Rightarrow> nat registrations \<Rightarrow> nat InternalResolver" where
  "child_of p m = \<lparr>registrations = m, parent = Some p, cache = []\<rparr>"

text \<open>
  A factory that records its invocations: the world is the list of the invocations so far,
  each with the token constructed and the arguments received, and each call returns a new
  object, numbered by its position in that list.
\<close>

definition construct :: "token \<Rightarrow> (token \<times> jsval list) list ServiceFactory" where
  "construct t args log = (Inr (JObj (length log)), log @ [(t, args)])"

definition built :: "token list \<Rightarrow> lifetime \<Rightarrow> token \<Rightarrow> (token \<times> jsval list) list ServiceDefinition" where
  "built tokens lt t = makeServiceDefinition tokens lt (construct t)"

text \<open>
  An application with a root resolver and two children of it, each resolver with the cache
  given: the root registers two singletons and a scoped service, the children register the
  tokens of the root (one of the singletons as transient) and services of every lifetime
  that depend on them.
\<close>

definition app_root :: "(token \<times> jsval list) list registrations" where
  "app_root = [(1, built [] Singleton 1), (5, built [] Singleton 5), (7, built [] Scoped 7)]"

definition app_child :: "(token \<times> jsval list) list registrations" where
  "app_child = [(1, built [] Singleton 1), (5, built [] Transient 5), (2, built [] Scoped 2),
                (0, built [1, 2] Singleton 0), (3, built [1] Scoped 3),
                (4, built [1, 2] Transient 4), (6, built [0, 4] Scoped 6),
                (7, built [] Scoped 7)]"

definition app_store ::
  "(token, jsval) jsmap \<Rightarrow> (token, jsval) jsmap \<Rightarrow> (token, jsval) jsmap
     \<Rightarrow> (token \<times> jsval list) list resolvers" where
  "app_store c0 c1 c2 =
     [\<lparr>registrations = app_root, parent = None, cache = c0\<rparr>,
      \<lparr>registrations = app_child, parent = Some 0, cache = c1\<rparr>,
      \<lparr>registrations = app_child, parent = Some 0, cache = c2\<rparr>]"



section \<open>Termination of the cycle detector\<close>

text \<open>
  \<open>hasCycle\<close> recurses on the neighbours with the sets it has left behind. It terminates
  because \<open>visited\<close> only grows and every call that goes on adds its node to it.
\<close>

lemma hasCycle_visited_mono:
  "hasCycle_hasCycle_loop_dom (Inl (g, n, s)) \<Longrightarrow> fst s \<subseteq> fst (snd (hasCycle g n s))"
  "hasCycle_hasCycle_loop_dom (Inr (g, ns, s)) \<Longrightarrow> fst s \<subseteq> fst (snd (hasCycle_loop g ns s))"
proof (induct g n s and g ns s rule: hasCycle_hasCycle_loop.pinduct)
  case (1 graph node visited recStack)
  then show ?case
    by (auto simp: hasCycle.psimps split: prod.splits bool.splits)
next
  case (2 graph s)
  then show ?case by (simp add: hasCycle_loop.psimps)
next
  case (3 graph neighbor rest s)
  show ?case
  proof (cases "hasCycle graph neighbor s")
    case (fields b visited' recStack')
    show ?thesis
    proof (cases b)
      case True
      with fields 3(1,2) show ?thesis by (simp add: hasCycle_loop.psimps)
    next
      case False
      with fields 3(2) have "fst s \<subseteq> visited'" by simp
      moreover from False fields 3(3)
      have "visited' \<subseteq> fst (snd (hasCycle_loop graph rest (visited', recStack')))" by simp
      ultimately show ?thesis using False fields 3(1) by (simp add: hasCycle_loop.psimps)
    qed
  qed
qed

lemma neighbors_nodes: "set (neighbors g n) \<subseteq> graph_nodes g"
proof
  fix x assume x: "x \<in> set (neighbors g n)"
  then obtain ns where ns: "map_of g n = Some ns" "x \<in> set ns"
    by (cases "map_of g n") (auto simp: neighbors_def map_get_def)
  from ns(1) have "(n, ns) \<in> set g" by (rule map_of_SomeD)
  with ns(2) show "x \<in> graph_nodes g" by (force simp: graph_nodes_def)
qed

lemma finite_graph_nodes: "finite (graph_nodes g)"
  by (simp add: graph_nodes_def map_keys_def)

termination hasCycle
proof (relation "inv_image (less_than <*lex*> less_than)
    (\<lambda>x. case x of
       Inl (g, n, s) \<Rightarrow> (card ((graph_nodes g \<union> {n}) - fst s), 0::nat)
     | Inr (g, ns, s) \<Rightarrow> (card ((graph_nodes g \<union> set ns) - fst s), Suc (length ns)))", goal_cases)
  case 1
  then show ?case by (intro wf_inv_image wf_lex_prod wf_less_than)
next
  case (2 graph node visited recStack)
  have "(graph_nodes graph \<union> set (neighbors graph node)) - insert node visited
        \<subset> (graph_nodes graph \<union> {node}) - visited"
    using 2 neighbors_nodes[of graph node] by auto
  then have "card ((graph_nodes graph \<union> set (neighbors graph node)) - insert node visited)
        < card ((graph_nodes graph \<union> {node}) - visited)"
    by (intro psubset_card_mono) (auto simp: finite_graph_nodes)
  then show ?case by simp
next
  case (3 graph neighbor rest s)
  have "card ((graph_nodes graph \<union> {neighbor}) - fst s)
        \<le> card ((graph_nodes graph \<union> set (neighbor # rest)) - fst s)"
    by (intro card_mono) (auto simp: finite_graph_nodes)
  then show ?case by auto
next
  case (4 graph neighbor rest s x y)
  then have "fst s \<subseteq> fst y"
    using hasCycle_visited_mono(1)[of graph neighbor s] by (metis snd_conv)
  then have "card ((graph_nodes graph \<union> set rest) - fst y)
        \<le> card ((graph_nodes graph \<union> set (neighbor # rest)) - fst s)"
    by (intro card_mono) (auto simp: finite_graph_nodes)
  then show ?case by auto
qed

section \<open>The builder: \<open>provide\<close>\<close>

lemma map_get_map_set: "map_get (map_set k v m) k' = (if k' = k then Some v else map_get m k')"
  by (induction m) (auto simp: map_get_def)

lemma map_keys_map_set:
  "map_keys (map_set k v m) = (if map_has m k then map_keys m else map_keys m @ [k])"
  by (induction m) (auto simp: map_keys_def map_has_def)

lemma map_set_fresh: "\<not> map_has m k \<Longrightarrow> map_set k v m = m @ [(k, v)]"
  by (induction m) (auto simp: map_has_def map_keys_def)

lemma map_has_iff_get: "map_has m k \<longleftrightarrow> map_get m k \<noteq> None"
  by (simp add: map_has_def map_keys_def map_get_def map_of_eq_None_iff)

lemma provide_result:
  "provide c tok v h =
     Inr (createInnerContainer (ContainerRequiredKey c @ requires v) (ContainerProvidedKey c @ [tok])
            (length h),
          h @ [map_set tok v (h ! ContainerMapKey c)])"
  by (simp add: provide_def heap_set_def Let_def)

text \<open>
  C1, as amended. The source has no check for a token that is registered already (the type
  \<open>FilterNotAlreadyProvided\<close> rejects it at compile time only): \<open>provide\<close> with a registered
  token returns a new registry, in which the new definition has replaced the old one in
  place; the tokens and their order, and the definitions of all other tokens, are those of
  the old registry.
\<close>

theorem provide_registered_replaces:
  assumes "map_has (container_map h c) tok"
  shows "\<exists>c' h'. provide c tok v h = Inr (c', h')
           \<and> map_get (container_map h' c') tok = Some v
           \<and> map_keys (container_map h' c') = map_keys (container_map h c)
           \<and> (\<forall>k. k \<noteq> tok \<longrightarrow> map_get (container_map h' c') k = map_get (container_map h c) k)"
  using assms
  by (simp add: provide_result container_map_def createInnerContainer_def map_get_map_set
      map_keys_map_set)

theorem provide_registered_replaces_witness:
  "map_has (container_map [[(0, fromValue [] (JNum 1) :: unit ServiceDefinition)]]
        (createInnerContainer [] [0] 0)) 0
   \<and> (\<exists>c' h'. provide (createInnerContainer [] [0] 0) 0 (fromValue [] (JNum 2))
          [[(0, fromValue [] (JNum 1) :: unit ServiceDefinition)]] = Inr (c', h')
        \<and> map_get (container_map h' c') 0 = Some (fromValue [] (JNum 2)))"
proof -
  have h: "map_has (container_map [[(0, fromValue [] (JNum 1) :: unit ServiceDefinition)]]
        (createInnerContainer [] [0] 0)) 0"
    by (simp add: container_map_def createInnerContainer_def map_has_def map_keys_def)
  from provide_registered_replaces [OF h, of "fromValue [] (JNum 2)"] h
  show ?thesis by blast
qed

text \<open>
  C1 as stated fails: token \<open>0\<close> is registered by the first \<open>provide\<close>, and the second
  \<open>provide\<close> of token \<open>0\<close> does not end in \<open>DuplicateRegistration\<close>.
\<close>

theorem provide_duplicate_counterexample:
  "createContainer_provide 0 (fromValue [] (JNum 1)) ([] :: unit mapHeap)
     = Inr (createInnerContainer [] [0] 0, [[(0, fromValue [] (JNum 1))]])
   \<and> map_has (container_map [[(0, fromValue [] (JNum 1) :: unit ServiceDefinition)]]
        (createInnerContainer [] [0] 0)) 0
   \<and> provide (createInnerContainer [] [0] 0) 0 (fromValue [] (JNum 2))
        [[(0, fromValue [] (JNum 1) :: unit ServiceDefinition)]]
      \<noteq> Inl DuplicateRegistration"
  by (simp add: createContainer_provide_def provide_def heap_set_def Let_def
      createInnerContainer_def container_map_def map_has_def map_keys_def fromValue_def
      makeServiceDefinition_def)

text \<open>
  C10, as amended. \<open>provide\<close> returns a new registry whose map lives at a fresh address: it
  holds \<open>tok \<mapsto> v\<close> and, for every other token, the registration of the old registry; when
  \<open>tok\<close> was not registered these are the old entries followed by \<open>(tok, v)\<close>. Every map
  that existed before, the one of the old registry among them, keeps its entries, so a
  resolver made from the old registry afterwards is the one it would have been before.
\<close>

theorem provide_copy_on_write:
  assumes "ContainerMapKey c < length h"
  shows "\<exists>c' h'. provide c tok v h = Inr (c', h')
           \<and> map_get (container_map h' c') tok = Some v
           \<and> (\<forall>k. k \<noteq> tok \<longrightarrow> map_get (container_map h' c') k = map_get (container_map h c) k)
           \<and> (\<not> map_has (container_map h c) tok \<longrightarrow>
                container_map h' c' = container_map h c @ [(tok, v)])
           \<and> length h' = Suc (length h)
           \<and> (\<forall>a < length h. h' ! a = h ! a)
           \<and> container_map h' c = container_map h c
           \<and> (\<forall>par rs. resolver c par h' rs = resolver c par h rs)"
  using assms
  by (simp add: provide_result container_map_def createInnerContainer_def map_get_map_set
      map_set_fresh nth_append resolver_def)

theorem provide_copy_on_write_witness:
  "ContainerMapKey (createInnerContainer [] [0] 0) < length [[(0, fromValue [] (JNum 1) :: unit ServiceDefinition)]]
   \<and> (\<exists>c' h'. provide (createInnerContainer [] [0] 0) 1 (fromValue [0] (JNum 2))
          [[(0, fromValue [] (JNum 1) :: unit ServiceDefinition)]] = Inr (c', h')
        \<and> container_map h' c' = [(0, fromValue [] (JNum 1)), (1, fromValue [0] (JNum 2))]
        \<and> container_map h' (createInnerContainer [] [0] 0) = [(0, fromValue [] (JNum 1))])"
proof -
  have h: "ContainerMapKey (createInnerContainer [] [0] 0)
             < length [[(0, fromValue [] (JNum 1) :: unit ServiceDefinition)]]"
    by (simp add: createInnerContainer_def)
  have f: "\<not> map_has (container_map [[(0, fromValue [] (JNum 1) :: unit ServiceDefinition)]]
             (createInnerContainer [] [0] 0)) 1"
    by (simp add: container_map_def createInnerContainer_def map_has_def map_keys_def)
  have m: "container_map [[(0, fromValue [] (JNum 1) :: unit ServiceDefinition)]]
             (createInnerContainer [] [0] 0) = [(0, fromValue [] (JNum 1))]"
    by (simp add: container_map_def createInnerContainer_def)
  from provide_copy_on_write [OF h, of 1 "fromValue [0] (JNum 2)"] f m h
  show ?thesis by auto
qed

text \<open>
  C10 as stated fails for a token that is registered already: the old registry holds
  \<open>0 \<mapsto> d\<close> with \<open>d\<close> a singleton, and the registry returned by \<open>provide\<close> of token \<open>0\<close> with a
  transient definition does not hold that registration any more.
\<close>

theorem provide_keeps_registrations_counterexample:
  "provide (createInnerContainer [] [0] 0) 0 (makeServiceDefinition [] Transient alloc)
       [[(0, makeServiceDefinition [] Singleton alloc)]]
     = Inr (createInnerContainer [] [0, 0] 1,
            [[(0, makeServiceDefinition [] Singleton alloc)],
             [(0, makeServiceDefinition [] Transient alloc)]])
   \<and> map_get (container_map [[(0, makeServiceDefinition [] Singleton alloc)]]
        (createInnerContainer [] [0] 0)) 0 = Some (makeServiceDefinition [] Singleton alloc)
   \<and> map_get (container_map [[(0, makeServiceDefinition [] Singleton alloc)],
                              [(0, makeServiceDefinition [] Transient alloc)]]
        (createInnerContainer [] [0, 0] 1)) 0 \<noteq> Some (makeServiceDefinition [] Singleton alloc)"
  by (simp add: provide_def heap_set_def Let_def createInnerContainer_def container_map_def
      map_get_def makeServiceDefinition_def)

section \<open>Finalization: the inheritance check\<close>

lemma InternalCheckInheriting_loop_result:
  "InternalCheckInheriting_loop ks inheriting =
     (if set ks \<subseteq> set (map_keys inheriting) then Inr () else Inl InheritanceMismatch)"
  by (induction ks) (auto simp: map_has_def)

lemma InternalCheckInheriting_result:
  "InternalCheckInheriting this inheriting =
     (if set (map_keys (registrations this)) \<subseteq> set (map_keys inheriting) then Inr ()
      else Inl InheritanceMismatch)"
  by (simp add: InternalCheckInheriting_def InternalCheckInheriting_loop_result)

text \<open>
  C5. \<open>resolver(parent)\<close> ends in the inheritance error exactly when a token registered in
  the registry of the parent is not registered in the registry being finalized, whatever the
  cycle check would say: the check comes first, and no resolver is made. When a resolver is
  made, it is at a fresh address, with that parent, and its registrations contain every
  token of the parent.
\<close>

theorem resolver_inheritance_check:
  assumes "p < length rs"
  shows "(resolver c (Some p) h rs = Inl InheritanceMismatch
            \<longleftrightarrow> \<not> set (map_keys (registrations (rs ! p))) \<subseteq> set (map_keys (container_map h c)))
         \<and> (\<forall>a rs'. resolver c (Some p) h rs = Inr (a, rs') \<longrightarrow>
               a = length rs \<and> parent (rs' ! a) = Some p
               \<and> registrations (rs' ! a) = container_map h c
               \<and> rs' ! p = rs ! p
               \<and> set (map_keys (registrations (rs' ! p))) \<subseteq> set (map_keys (registrations (rs' ! a))))"
  using assms
  by (auto simp: resolver_def InternalCheckInheriting_result checkForCycles_def container_map_def
      Let_def nth_append split: if_splits)

theorem resolver_inheritance_check_witness:
  "0 < length [root_of [(2, svc [] Singleton), (1, svc [] Singleton)]]
   \<and> resolver (createInnerContainer [] [0, 1, 3] 0) (Some 0)
        [[(0, svc [] Scoped), (1, svc [] Singleton), (3, svc [] Singleton)]]
        [root_of [(2, svc [] Singleton), (1, svc [] Singleton)]] = Inl InheritanceMismatch"
proof -
  have h: "0 < length [root_of [(2, svc [] Singleton), (1, svc [] Singleton)]]" by simp
  have "\<not> set (map_keys (registrations ([root_of [(2, svc [] Singleton), (1, svc [] Singleton)]] ! 0)))
          \<subseteq> set (map_keys (container_map
                [[(0, svc [] Scoped), (1, svc [] Singleton), (3, svc [] Singleton)]]
                (createInnerContainer [] [0, 1, 3] 0)))"
    by (simp add: root_of_def map_keys_def container_map_def createInnerContainer_def)
  with resolver_inheritance_check [OF h, of "createInnerContainer [] [0, 1, 3] 0"
      "[[(0, svc [] Scoped), (1, svc [] Singleton), (3, svc [] Singleton)]]"] h
  show ?thesis by blast
qed

section \<open>What a resolution does to the store\<close>

lemma same_shape_refl: "same_shape rs rs"
  by (simp add: same_shape_def)

lemma same_shape_trans: "same_shape rs rs1 \<Longrightarrow> same_shape rs1 rs2 \<Longrightarrow> same_shape rs rs2"
  by (simp add: same_shape_def)

lemma same_shape_valid: "same_shape rs rs1 \<Longrightarrow> valid_store rs \<Longrightarrow> valid_store rs1"
  by (simp add: same_shape_def valid_store_def)

lemma nth_cache_set:
  "a < length rs \<Longrightarrow>
     cache_set r tok v rs ! a =
       (if a = r then (rs ! r)\<lparr>cache := map_set tok v (cache (rs ! r))\<rparr> else rs ! a)"
  by (simp add: cache_set_def)

lemma length_cache_set: "length (cache_set r tok v rs) = length rs"
  by (simp add: cache_set_def)

lemma same_shape_cache_set: "same_shape rs rs1 \<Longrightarrow> same_shape rs (cache_set r tok v rs1)"
  by (simp add: same_shape_def nth_cache_set length_cache_set)

lemma in_chain_same_shape:
  assumes "in_chain rs r a" "same_shape rs rs1" "valid_store rs" "r < length rs"
  shows "in_chain rs1 r a"
  using assms
proof (induction rule: in_chain.induct)
  case (self r)
  show ?case by (rule in_chain.self)
next
  case (up r p a)
  from up.prems up.hyps(1) have "p < r" by (auto simp: valid_store_def)
  with up have "in_chain rs1 p a" by simp
  moreover from up.prems up.hyps(1) have "parent (rs1 ! r) = Some p"
    by (simp add: same_shape_def)
  ultimately show ?case by (rule in_chain.up[rotated])
qed

lemma same_shape_sym: "same_shape rs rs1 \<Longrightarrow> same_shape rs1 rs"
  by (simp add: same_shape_def)

lemma in_chain_same_shape_iff:
  assumes "same_shape rs rs1" "valid_store rs" "r < length rs"
  shows "in_chain rs1 r a \<longleftrightarrow> in_chain rs r a"
proof
  assume "in_chain rs1 r a"
  moreover from assms have "same_shape rs1 rs" "valid_store rs1" "r < length rs1"
    by (auto simp: same_shape_sym same_shape_valid same_shape_def)
  ultimately show "in_chain rs r a" by (rule in_chain_same_shape)
next
  assume "in_chain rs r a"
  with assms show "in_chain rs1 r a" by (simp add: in_chain_same_shape)
qed

lemma in_chain_below:
  assumes "in_chain rs r a" "valid_store rs" "r < length rs"
  shows "a \<le> r"
  using assms
proof (induction rule: in_chain.induct)
  case (self r)
  show ?case by simp
next
  case (up r p a)
  from up.prems up.hyps(1) have "p < r" by (auto simp: valid_store_def)
  with up show ?case by simp
qed

lemma evolves_refl: "evolves r rs rs"
  by (simp add: evolves_def same_shape_refl)

lemma evolves_same_shape: "evolves r rs rs1 \<Longrightarrow> same_shape rs rs1"
  by (simp add: evolves_def)

lemma never_cached_same_shape:
  "same_shape rs rs1 \<Longrightarrow> a < length rs \<Longrightarrow> never_cached (rs1 ! a) k = never_cached (rs ! a) k"
  by (simp add: never_cached_def same_shape_def)

lemma evolves_trans:
  assumes "evolves r rs rs1" "evolves r rs1 rs2" "valid_store rs" "r < length rs"
  shows "evolves r rs rs2"
proof -
  from assms(1) have sh1: "same_shape rs rs1" by (rule evolves_same_shape)
  from assms(2) have sh2: "same_shape rs1 rs2" by (rule evolves_same_shape)
  have len: "length rs1 = length rs" using sh1 by (simp add: same_shape_def)
  have ch: "\<And>a. in_chain rs1 r a \<longleftrightarrow> in_chain rs r a"
    using sh1 assms(3,4) by (rule in_chain_same_shape_iff)
  show ?thesis
    unfolding evolves_def
  proof (intro conjI allI impI)
    show "same_shape rs rs2" using sh1 sh2 by (rule same_shape_trans)
  next
    fix a assume a: "a < length rs" and "\<not> in_chain rs r a"
    with assms(1,2) ch len show "rs2 ! a = rs ! a" by (simp add: evolves_def)
  next
    fix a k assume a: "a < length rs" and "never_cached (rs ! a) k"
    with assms(1,2) len never_cached_same_shape[OF sh1 a]
    show "map_get (cache (rs2 ! a)) k = map_get (cache (rs ! a)) k"
      by (simp add: evolves_def)
  qed
qed

lemma evolves_parent:
  assumes "evolves p rs rs1" "parent (rs ! r) = Some p"
  shows "evolves r rs rs1"
  using assms by (auto simp: evolves_def intro: in_chain.up)

lemma evolves_cache_set:
  assumes "evolves r rs rs1" "map_get (registrations (rs ! r)) tok = Some d" "lifetime d \<noteq> Transient"
  shows "evolves r rs (cache_set r tok v rs1)"
  unfolding evolves_def
proof (intro conjI allI impI)
  show "same_shape rs (cache_set r tok v rs1)"
    using assms(1) by (simp add: evolves_same_shape same_shape_cache_set)
next
  fix a assume "a < length rs" "\<not> in_chain rs r a"
  moreover then have "a \<noteq> r" using in_chain.self by auto
  ultimately show "cache_set r tok v rs1 ! a = rs ! a"
    using assms(1) by (simp add: evolves_def same_shape_def nth_cache_set)
next
  fix a k assume a: "a < length rs" and nc: "never_cached (rs ! a) k"
  from assms(1) have len: "length rs1 = length rs" by (simp add: evolves_def same_shape_def)
  show "map_get (cache (cache_set r tok v rs1 ! a)) k = map_get (cache (rs ! a)) k"
  proof (cases "a = r")
    case True
    with nc assms(2,3) have "k \<noteq> tok" by (auto simp: never_cached_def)
    with True a len assms(1) nc show ?thesis
      by (simp add: nth_cache_set map_get_map_set evolves_def)
  next
    case False
    with a len assms(1) nc show ?thesis by (simp add: nth_cache_set evolves_def)
  qed
qed

lemma evolves_valid: "evolves r rs rs1 \<Longrightarrow> valid_store rs \<Longrightarrow> valid_store rs1"
  by (auto dest: evolves_same_shape same_shape_valid)

lemma evolves_length: "evolves r rs rs1 \<Longrightarrow> length rs1 = length rs"
  by (simp add: evolves_def same_shape_def)

lemma cache_instance_evolves:
  assumes ci: "cache_instance r tok out = Some (res, s')"
    and out: "\<And>res1 s1. out = Some (res1, s1) \<Longrightarrow> evolves r rsm (fst s1)"
    and ev: "evolves r rs rsm"
    and v: "valid_store rs" "r < length rs"
    and d: "map_get (registrations (rs ! r)) tok = Some d" "lifetime d \<noteq> Transient"
  shows "evolves r rs (fst s')"
proof (cases out)
  case None
  with ci show ?thesis by (simp add: cache_instance_def)
next
  case (Some o1)
  obtain res1 rs2 w2 where o1: "o1 = (res1, (rs2, w2))" by (metis surj_pair)
  from out[of res1 "(rs2, w2)"] Some o1 have "evolves r rsm rs2" by simp
  with ev v have e2: "evolves r rs rs2" by (blast intro: evolves_trans)
  show ?thesis
  proof (cases res1)
    case (Inl e)
    with ci Some o1 e2 show ?thesis by (auto simp: cache_instance_def)
  next
    case (Inr inst)
    with ci Some o1 have "fst s' = cache_set r tok inst rs2" by (auto simp: cache_instance_def)
    with e2 d show ?thesis by (simp add: evolves_cache_set)
  qed
qed

lemma resolve_evolves:
  "internalResolve n r tok s = Some (res, s') \<Longrightarrow> valid_store (fst s) \<Longrightarrow> r < length (fst s)
     \<Longrightarrow> evolves r (fst s) (fst s')"
  "resolve n r tok s = Some (res, s') \<Longrightarrow> valid_store (fst s) \<Longrightarrow> r < length (fst s)
     \<Longrightarrow> evolves r (fst s) (fst s')"
  "resolveAll n r toks s = Some (resl, s') \<Longrightarrow> valid_store (fst s) \<Longrightarrow> r < length (fst s)
     \<Longrightarrow> evolves r (fst s) (fst s')"
  "instantiate n r d s = Some (res, s') \<Longrightarrow> valid_store (fst s) \<Longrightarrow> r < length (fst s)
     \<Longrightarrow> evolves r (fst s) (fst s')"
proof (induction n r tok s and n r tok s and n r toks s and n r d s
    arbitrary: res s' and res s' and resl s' and res s'
    rule: internalResolve_resolve_resolveAll_instantiate.induct)
  case (1 r tok s)
  then show ?case by simp
next
  case (2 n r tok rs w)
  note run = "2.prems"(1) and v = "2.prems"(2,3)[simplified]
  show ?case
  proof (cases "map_get (registrations (rs ! r)) tok")
    case None
    with run show ?thesis by (auto simp: evolves_refl)
  next
    case (Some d)
    define probe where "probe = (case parent (rs ! r) of
         None \<Rightarrow> Some (Inr JUndefined, rs, w)
       | Some p \<Rightarrow> internalResolve n p tok (rs, w))"
    have probe_ev: "evolves r rs rs1" if "probe = Some (res1, (rs1, w1))" "lifetime d \<noteq> Scoped"
      for res1 rs1 w1
    proof (cases "parent (rs ! r)")
      case None
      with that show ?thesis by (simp add: probe_def evolves_refl)
    next
      case (Some p)
      with v have "p < length rs" by (auto simp: valid_store_def)
      moreover from Some that have "internalResolve n p tok (rs, w) = Some (res1, (rs1, w1))"
        by (simp add: probe_def)
      ultimately have "evolves p rs rs1"
        using "2.IH"(1)[OF \<open>map_get (registrations (rs ! r)) tok = Some d\<close> _ Some]
          "2.IH"(3)[OF \<open>map_get (registrations (rs ! r)) tok = Some d\<close> _ Some] that(2) v
        by (cases "lifetime d") auto
      with Some show ?thesis by (simp add: evolves_parent)
    qed
    show ?thesis
    proof (cases "lifetime d")
      case Scoped
      show ?thesis
      proof (cases "truthy (cache_get rs r tok)")
        case True
        with run Some Scoped show ?thesis by (simp add: evolves_refl)
      next
        case False
        with run Some Scoped
        have ci: "cache_instance r tok (instantiate n r d (rs, w)) = Some (res, s')" by simp
        have "evolves r rs (fst s')"
        proof (rule cache_instance_evolves[OF ci _ evolves_refl v Some])
          fix res1 s1 assume "instantiate n r d (rs, w) = Some (res1, s1)"
          with "2.IH"(5)[OF Some Scoped False] v show "evolves r rs (fst s1)" by simp
        qed (simp add: Scoped)
        then show ?thesis by simp
      qed
    next
      case Singleton
      from run Some Singleton obtain res1 rs1 w1 where
        pr: "probe = Some (res1, (rs1, w1))"
        by (auto simp: probe_def split: option.splits)
      from probe_ev[OF pr] Singleton have e1: "evolves r rs rs1" by simp
      show ?thesis
      proof (cases res1)
        case (Inl e)
        with run Some Singleton pr e1 show ?thesis by (auto simp: probe_def)
      next
        case (Inr resolution)
        show ?thesis
        proof (cases "truthy resolution \<or> truthy (cache_get rs1 r tok)")
          case True
          with run Some Singleton pr Inr e1 show ?thesis
            by (auto simp: probe_def split: if_splits)
        next
          case False
          with run Some Singleton pr Inr
          have ci: "cache_instance r tok (instantiate n r d (rs1, w1)) = Some (res, s')"
            by (auto simp: probe_def)
          have "evolves r rs (fst s')"
          proof (rule cache_instance_evolves[OF ci _ e1 v Some])
            fix res2 s2 assume "instantiate n r d (rs1, w1) = Some (res2, s2)"
            moreover from e1 v have "valid_store rs1" "r < length rs1"
              by (auto simp: evolves_valid evolves_length)
            ultimately show "evolves r rs1 (fst s2)"
              using "2.IH"(2)[OF Some Singleton pr[unfolded probe_def] refl Inr refl] False
              by simp
          qed (simp add: Singleton)
          then show ?thesis by simp
        qed
      qed
    next
      case Transient
      from run Some Transient obtain res1 rs1 w1 where
        pr: "probe = Some (res1, (rs1, w1))"
        by (auto simp: probe_def split: option.splits)
      from probe_ev[OF pr] Transient have e1: "evolves r rs rs1" by simp
      show ?thesis
      proof (cases res1)
        case (Inl e)
        with run Some Transient pr e1 show ?thesis by (auto simp: probe_def)
      next
        case (Inr resolution)
        show ?thesis
        proof (cases "truthy resolution")
          case True
          with run Some Transient pr Inr e1 show ?thesis by (auto simp: probe_def)
        next
          case False
          with run Some Transient pr Inr
          have ci: "instantiate n r d (rs1, w1) = Some (res, s')"
            by (auto simp: probe_def)
          moreover from e1 v have "valid_store rs1" "r < length rs1"
            by (auto simp: evolves_valid evolves_length)
          ultimately have "evolves r rs1 (fst s')"
            using "2.IH"(4)[OF Some Transient pr[unfolded probe_def] refl Inr refl] False
            by simp
          with e1 v show ?thesis by (auto intro: evolves_trans)
        qed
      qed
    qed
  qed
next
  case (3 n r tok s)
  then show ?case by (auto split: option.splits sum.splits prod.splits if_splits)
next
  case (4 n r s)
  then show ?case by (simp add: evolves_refl)
next
  case (5 n r tok rest s)
  from "5.prems"(1) obtain res1 s1 where r1: "resolve n r tok s = Some (res1, s1)"
    by (auto split: option.splits)
  with "5.IH"(1) "5.prems" have e1: "evolves r (fst s) (fst s1)" by simp
  show ?case
  proof (cases res1)
    case (Inl e)
    with "5.prems"(1) r1 e1 show ?thesis by auto
  next
    case (Inr v)
    with "5.prems"(1) r1 obtain res2 where r2: "resolveAll n r rest s1 = Some (res2, s')"
      by (auto split: option.splits sum.splits prod.splits)
    moreover from e1 "5.prems" have "valid_store (fst s1)" "r < length (fst s1)"
      by (auto simp: evolves_valid evolves_length)
    ultimately have "evolves r (fst s1) (fst s')"
      using "5.IH"(2)[OF r1 refl Inr] by simp
    with e1 "5.prems" show ?thesis by (auto intro: evolves_trans)
  qed
next
  case (6 n r d s)
  from "6.prems"(1) obtain resl s1 where ra: "resolveAll n r (requires d) s = Some (resl, s1)"
    by (auto split: option.splits)
  with "6.IH" "6.prems" have "evolves r (fst s) (fst s1)" by simp
  moreover from "6.prems"(1) ra have "fst s' = fst s1"
    by (auto split: sum.splits prod.splits)
  ultimately show ?case by simp
qed

section \<open>Missing registrations\<close>

lemma map_get_None_iff: "map_get m k = None \<longleftrightarrow> k \<notin> set (map_keys m)"
  by (simp add: map_get_def map_keys_def map_of_eq_None_iff)

lemma chain_lacks_token:
  assumes "in_chain rs r a" "valid_store rs" "keys_inherited rs" "r < length rs"
    "map_get (registrations (rs ! r)) tok = None"
  shows "map_get (registrations (rs ! a)) tok = None"
  using assms
proof (induction rule: in_chain.induct)
  case (self r)
  then show ?case by simp
next
  case (up r p a)
  from up.prems up.hyps(1) have "p < r" by (auto simp: valid_store_def)
  moreover from up.prems up.hyps(1)
  have "set (map_keys (registrations (rs ! p))) \<subseteq> set (map_keys (registrations (rs ! r)))"
    by (auto simp: keys_inherited_def)
  with up.prems(4) have "map_get (registrations (rs ! p)) tok = None"
    by (auto simp: map_get_None_iff)
  ultimately show ?case using up by simp
qed

text \<open>
  C3, as amended. In a store made by \<open>resolver\<close> (parents first, each child registering the
  tokens of its parent) no resolver of the chain defines a token exactly when the resolver
  itself does not, and then \<open>resolve\<close> throws the missing-registration error while
  \<open>InternalResolve\<close> returns \<open>undefined\<close>, neither changing the state. The converse is not
  claimed: \<open>resolve\<close> throws the same error for a token that has a definition when a
  dependency it must construct has none.
\<close>

theorem resolve_missing_registration:
  assumes "valid_store rs" "keys_inherited rs" "r < length rs"
  shows "((\<forall>a. in_chain rs r a \<longrightarrow> map_get (registrations (rs ! a)) tok = None)
            \<longleftrightarrow> map_get (registrations (rs ! r)) tok = None)
         \<and> (map_get (registrations (rs ! r)) tok = None \<longrightarrow>
               internalResolve (Suc n) r tok (rs, w) = Some (Inr JUndefined, (rs, w))
               \<and> resolve (Suc n) r tok (rs, w) = Some (Inl MissingRegistration, (rs, w)))"
  using assms by (auto intro: in_chain.self chain_lacks_token)

theorem resolve_missing_registration_witness:
  "valid_store [root_of [(0, svc [] Singleton)], child_of 0 [(0, svc [] Singleton), (1, svc [0] Scoped)]]
   \<and> keys_inherited [root_of [(0, svc [] Singleton)], child_of 0 [(0, svc [] Singleton), (1, svc [0] Scoped)]]
   \<and> (1::nat) < length [root_of [(0, svc [] Singleton)], child_of 0 [(0, svc [] Singleton), (1, svc [0] Scoped)]]
   \<and> map_get (registrations ([root_of [(0, svc [] Singleton)], child_of 0 [(0, svc [] Singleton), (1, svc [0] Scoped)]] ! 1)) 2 = None
   \<and> resolve 1 1 2 ([root_of [(0, svc [] Singleton)], child_of 0 [(0, svc [] Singleton), (1, svc [0] Scoped)]], 0)
       = Some (Inl MissingRegistration,
               ([root_of [(0, svc [] Singleton)], child_of 0 [(0, svc [] Singleton), (1, svc [0] Scoped)]], 0))"
proof -
  let ?rs = "[root_of [(0, svc [] Singleton)], child_of 0 [(0, svc [] Singleton), (1, svc [0] Scoped)]]"
  have v: "valid_store ?rs"
    by (simp add: valid_store_def less_Suc_eq root_of_def child_of_def)
  have k: "keys_inherited ?rs"
    by (simp add: keys_inherited_def less_Suc_eq root_of_def child_of_def map_keys_def)
  have l: "(1::nat) < length ?rs" by simp
  have m: "map_get (registrations (?rs ! 1)) 2 = None"
    by (simp add: child_of_def map_get_def)
  from resolve_missing_registration [OF v k l, of 2 0 0] m v k l
  show ?thesis by simp
qed

text \<open>
  C3 as stated fails: \<open>resolver()\<close> makes a resolver without parent from the registry
  that holds a definition of token \<open>0\<close> requiring token \<open>1\<close>; token \<open>0\<close> has a definition
  in that resolver, and \<open>resolve\<close> of token \<open>0\<close> throws the missing-registration error,
  since its dependency \<open>1\<close> has no definition.
\<close>

theorem resolve_missing_dependency_counterexample:
  "resolver (createInnerContainer [1] [0] 0) None [[(0, svc [1] Singleton)]] []
       = Inr (0, [root_of [(0, svc [1] Singleton)]])
   \<and> map_get (registrations ([root_of [(0, svc [1] Singleton)]] ! 0)) 0 = Some (svc [1] Singleton)
   \<and> parent ([root_of [(0, svc [1] Singleton)]] ! 0) = None
   \<and> resolve 2 0 0 ([root_of [(0, svc [1] Singleton)]], 0)
        = Some (Inl MissingRegistration, ([root_of [(0, svc [1] Singleton)]], 0))"
proof -
  have g: "graphFromServiceMap [(0, svc [1] Singleton)] = [(0, [1])]"
    by (simp add: graphFromServiceMap_def svc_def makeServiceDefinition_def)
  have "\<not> isCyclic [(0, [1])]"
    by (simp add: isCyclic_def map_keys_def neighbors_def map_get_def)
  with g have r: "resolver (createInnerContainer [1] [0] 0) None [[(0, svc [1] Singleton)]] []
       = Inr (0, [root_of [(0, svc [1] Singleton)]])"
    by (simp add: resolver_def checkForCycles_def createInnerContainer_def Let_def root_of_def)
  have m: "map_get (registrations ([root_of [(0, svc [1] Singleton)]] ! 0)) 0
             = Some (svc [1] Singleton)
           \<and> parent ([root_of [(0, svc [1] Singleton)]] ! 0) = None
           \<and> resolve 2 0 0 ([root_of [(0, svc [1] Singleton)]], 0)
               = Some (Inl MissingRegistration, ([root_of [(0, svc [1] Singleton)]], 0))"
    by (simp add: root_of_def svc_def makeServiceDefinition_def map_get_def cache_get_def
        cache_instance_def numeral_2_eq_2)
  from r m show ?thesis by (simp only: simp_thms)
qed

section \<open>The lifetime cases\<close>

lemma probe_parent_evolves:
  assumes "probe_parent n r tok (rs, w) = Some (res, (rs1, w1))" "valid_store rs" "r < length rs"
  shows "evolves r rs rs1"
proof (cases "parent (rs ! r)")
  case None
  with assms show ?thesis by (simp add: probe_parent_def evolves_refl)
next
  case (Some p)
  with assms have "p < length rs" by (auto simp: valid_store_def)
  with assms Some have "evolves p rs rs1"
    using resolve_evolves(1)[of n p tok "(rs, w)" res "(rs1, w1)"] by (simp add: probe_parent_def)
  with Some show ?thesis by (simp add: evolves_parent)
qed

lemma internalResolve_scoped:
  assumes "map_get (registrations (rs ! r)) tok = Some d" "lifetime d = Scoped"
  shows "internalResolve (Suc n) r tok (rs, w) =
           (if truthy (cache_get rs r tok) then Some (Inr (cache_get rs r tok), (rs, w))
            else cache_instance r tok (instantiate n r d (rs, w)))"
  using assms by simp

lemma internalResolve_singleton:
  assumes "map_get (registrations (rs ! r)) tok = Some d" "lifetime d = Singleton"
  shows "internalResolve (Suc n) r tok (rs, w) =
           (case probe_parent n r tok (rs, w) of
              None \<Rightarrow> None
            | Some (Inl e, s1) \<Rightarrow> Some (Inl e, s1)
            | Some (Inr resolution, (rs1, w1)) \<Rightarrow>
                (if truthy resolution then Some (Inr resolution, (rs1, w1))
                 else if truthy (cache_get rs1 r tok)
                   then Some (Inr (cache_get rs1 r tok), (rs1, w1))
                 else cache_instance r tok (instantiate n r d (rs1, w1))))"
  using assms by (simp add: probe_parent_def)

lemma internalResolve_transient:
  assumes "map_get (registrations (rs ! r)) tok = Some d" "lifetime d = Transient"
  shows "internalResolve (Suc n) r tok (rs, w) =
           (case probe_parent n r tok (rs, w) of
              None \<Rightarrow> None
            | Some (Inl e, s1) \<Rightarrow> Some (Inl e, s1)
            | Some (Inr resolution, (rs1, w1)) \<Rightarrow>
                (if truthy resolution then Some (Inr resolution, (rs1, w1))
                 else instantiate n r d (rs1, w1)))"
  using assms by (simp add: probe_parent_def)

lemma cache_get_cache_set:
  "r < length rs \<Longrightarrow> cache_get (cache_set r tok v rs) r tok = v"
  by (simp add: cache_get_def nth_cache_set map_get_map_set)


section \<open>The dependencies, from left to right\<close>

lemma resolve_Inr_truthy: "resolve n r tok s = Some (Inr v, s') \<Longrightarrow> truthy v"
  by (auto split: option.splits sum.splits prod.splits if_splits)

lemma resolveAll_Cons_Inr:
  assumes "resolveAll n r (tok # rest) s = Some (Inr vs, s')"
  obtains v vs' s1 where "resolve n r tok s = Some (Inr v, s1)"
    "resolveAll n r rest s1 = Some (Inr vs', s')" "vs = v # vs'"
  using assms by (auto split: option.splits sum.splits prod.splits)

lemma resolveAll_length:
  "resolveAll n r toks s = Some (Inr vs, s') \<Longrightarrow> length vs = length toks"
proof (induction toks arbitrary: s vs)
  case Nil
  then show ?case by simp
next
  case (Cons tok rest)
  from Cons.prems obtain v vs' s1 where "resolveAll n r rest s1 = Some (Inr vs', s')" "vs = v # vs'"
    by (rule resolveAll_Cons_Inr)
  with Cons.IH show ?case by simp
qed

lemma resolveAll_in_order:
  assumes "resolveAll n r toks s = Some (Inr vs, s')" "i < length toks"
  shows "\<exists>si si'. resolveAll n r (take i toks) s = Some (Inr (take i vs), si)
            \<and> resolve n r (toks ! i) si = Some (Inr (vs ! i), si')
            \<and> resolveAll n r (take (Suc i) toks) s = Some (Inr (take (Suc i) vs), si')"
  using assms
proof (induction toks arbitrary: s vs i)
  case Nil
  then show ?case by simp
next
  case (Cons tok rest)
  from Cons.prems(1) obtain v vs' s1 where
    r1: "resolve n r tok s = Some (Inr v, s1)"
    and r2: "resolveAll n r rest s1 = Some (Inr vs', s')" and vs: "vs = v # vs'"
    by (rule resolveAll_Cons_Inr)
  show ?case
  proof (cases i)
    case 0
    with r1 vs show ?thesis by simp
  next
    case (Suc j)
    with Cons.prems(2) have "j < length rest" by simp
    from Cons.IH[OF r2 this] obtain sj sj' where
      "resolveAll n r (take j rest) s1 = Some (Inr (take j vs'), sj)"
      "resolve n r (rest ! j) sj = Some (Inr (vs' ! j), sj')"
      "resolveAll n r (take (Suc j) rest) s1 = Some (Inr (take (Suc j) vs'), sj')"
      by blast
    with r1 vs Suc show ?thesis by simp
  qed
qed

section \<open>Singleton resolution\<close>

lemma instantiate_no_requires:
  "requires d = [] \<Longrightarrow>
     instantiate n r d (rs, w) =
       (case factory d [] w of
          (Inl thrown, w') \<Rightarrow> Some (Inl (FactoryFailure thrown), (rs, w'))
        | (Inr inst, w') \<Rightarrow> Some (Inr inst, (rs, w')))"
  by simp

lemma instantiate_store:
  assumes "instantiate n r d s = Some (res, (rs', w'))"
  shows "\<exists>resl w1. resolveAll n r (requires d) s = Some (resl, (rs', w1))"
  using assms by (auto split: option.splits sum.splits prod.splits)

lemma internalResolve_unregistered:
  "map_get (registrations (rs ! r)) tok = None \<Longrightarrow>
     internalResolve (Suc n) r tok (rs, w) = Some (Inr JUndefined, (rs, w))"
  by simp

lemma instantiate_truthy:
  assumes "instantiate k r d s = Some (Inr inst, s')" "truthy_factory d"
  shows "truthy inst"
  using assms
  by (auto simp: truthy_factory_def split: option.splits sum.splits prod.splits)

lemma cache_instance_Inr:
  assumes "cache_instance r tok out = Some (Inr inst, (rs', w'))"
  obtains rs2 where "out = Some (Inr inst, (rs2, w'))" "rs' = cache_set r tok inst rs2"
  using assms by (auto simp: cache_instance_def split: option.splits sum.splits prod.splits)

text \<open>The tail shared by the scoped and the singleton case: the cache, else a new instance.\<close>

lemma cached_or_built:
  assumes tail: "(if truthy (cache_get rs1 r tok) then Some (Inr (cache_get rs1 r tok), (rs1, w1))
                  else cache_instance r tok (instantiate k r d (rs1, w1)))
                 = Some (Inr inst, (rs', w'))"
    and tf: "truthy_factory d"
    and v: "valid_store rs1" "r < length rs1"
  shows "truthy inst \<and> cache_get rs' r tok = inst \<and> same_shape rs1 rs'"
proof (cases "truthy (cache_get rs1 r tok)")
  case True
  with tail show ?thesis by (auto simp: same_shape_refl)
next
  case False
  with tail have "cache_instance r tok (instantiate k r d (rs1, w1)) = Some (Inr inst, (rs', w'))"
    by simp
  then obtain rs2 where i: "instantiate k r d (rs1, w1) = Some (Inr inst, (rs2, w'))"
    and rs': "rs' = cache_set r tok inst rs2"
    by (rule cache_instance_Inr)
  from i tf have "truthy inst" by (rule instantiate_truthy)
  moreover from i v have e: "evolves r rs1 rs2"
    using resolve_evolves(4)[of k r d "(rs1, w1)" "Inr inst" "(rs2, w')"] by simp
  with v have "r < length rs2" by (simp add: evolves_length)
  with rs' have "cache_get rs' r tok = inst" by (simp add: cache_get_cache_set)
  moreover from e rs' have "same_shape rs1 rs'"
    by (simp add: evolves_same_shape same_shape_cache_set)
  ultimately show ?thesis by simp
qed

lemma settled_instance:
  assumes v: "valid_store rs"
  shows "r < length rs \<Longrightarrow> chain_settles rs r tok
     \<Longrightarrow> map_get (registrations (rs ! r)) tok = Some d
     \<Longrightarrow> internalResolve n r tok (rs, w) = Some (Inr inst, (rs', w'))
     \<Longrightarrow> truthy inst \<and> same_shape rs rs'
         \<and> (\<forall>w''. internalResolve n r tok (rs', w'') = Some (Inr inst, (rs', w'')))"
proof (induction r arbitrary: n d w inst rs' w' rule: less_induct)
  case (less r)
  note r = less.prems(1) and cs = less.prems(2) and d = less.prems(3) and run = less.prems(4)
  from run obtain k where n: "n = Suc k" by (cases n) auto
  from cs d have nt: "lifetime d \<noteq> Transient" and tf: "truthy_factory d"
    by (auto simp: chain_settles_def intro: in_chain.self)
  have finish: "truthy inst \<and> same_shape rs rs'
         \<and> (\<forall>w''. internalResolve n r tok (rs', w'') = Some (Inr inst, (rs', w'')))"
    if tail: "(if truthy (cache_get rs r tok) then Some (Inr (cache_get rs r tok), (rs, w))
                  else cache_instance r tok (instantiate k r d (rs, w)))
                 = Some (Inr inst, (rs', w'))"
      and again: "\<And>rs' w''. same_shape rs rs' \<Longrightarrow> lifetime d = Singleton \<Longrightarrow>
                    probe_parent k r tok (rs', w'') = Some (Inr JUndefined, (rs', w''))"
  proof -
    from cached_or_built[OF tail tf v r]
    have ti: "truthy inst" and c: "cache_get rs' r tok = inst" and sh: "same_shape rs rs'"
      by auto
    from sh d r have d': "map_get (registrations (rs' ! r)) tok = Some d"
      by (simp add: same_shape_def)
    have "internalResolve n r tok (rs', w'') = Some (Inr inst, (rs', w''))" for w''
    proof (cases "lifetime d")
      case Scoped
      with d' c ti n show ?thesis
        by (simp add: internalResolve_scoped del: internalResolve.simps)
    next
      case Singleton
      with d' c ti n again[OF sh Singleton, of w''] show ?thesis
        by (simp add: internalResolve_singleton del: internalResolve.simps)
    next
      case Transient
      with nt show ?thesis by simp
    qed
    with ti sh show ?thesis by simp
  qed
  show ?case
  proof (cases "lifetime d")
    case Transient
    with nt show ?thesis by simp
  next
    case Scoped
    with run d n have "(if truthy (cache_get rs r tok) then Some (Inr (cache_get rs r tok), (rs, w))
                  else cache_instance r tok (instantiate k r d (rs, w)))
                 = Some (Inr inst, (rs', w'))"
      by (simp add: internalResolve_scoped del: internalResolve.simps instantiate.simps)
    then show ?thesis using Scoped by (intro finish) simp_all
  next
    case Singleton
    show ?thesis
    proof (cases "parent (rs ! r)")
      case None
      with run d n Singleton
      have "(if truthy (cache_get rs r tok) then Some (Inr (cache_get rs r tok), (rs, w))
                  else cache_instance r tok (instantiate k r d (rs, w)))
                 = Some (Inr inst, (rs', w'))"
        by (simp add: internalResolve_singleton probe_parent_def
            del: internalResolve.simps instantiate.simps)
      then show ?thesis
      proof (rule finish)
        fix rs'' w'' assume "same_shape rs rs''"
        with None r have "parent (rs'' ! r) = None" by (simp add: same_shape_def)
        then show "probe_parent k r tok (rs'', w'') = Some (Inr JUndefined, (rs'', w''))"
          by (simp add: probe_parent_def)
      qed
    next
      case (Some p)
      with v r have pr: "p < r" "p < length rs" by (auto simp: valid_store_def)
      show ?thesis
      proof (cases "map_get (registrations (rs ! p)) tok")
        case None
        from run d n Singleton Some obtain j where k: "k = Suc j"
          by (cases k) (auto simp: internalResolve_singleton probe_parent_def
              simp del: internalResolve.simps(2))
        from None k have pp: "internalResolve k p tok (rs, w) = Some (Inr JUndefined, (rs, w))"
          by simp
        with run d n Singleton Some
        have "(if truthy (cache_get rs r tok) then Some (Inr (cache_get rs r tok), (rs, w))
                  else cache_instance r tok (instantiate k r d (rs, w)))
                 = Some (Inr inst, (rs', w'))"
          by (simp add: internalResolve_singleton probe_parent_def
              del: internalResolve.simps instantiate.simps)
        then show ?thesis
        proof (rule finish)
          fix rs'' w'' assume sh: "same_shape rs rs''"
          with Some r pr None have "parent (rs'' ! r) = Some p"
            "map_get (registrations (rs'' ! p)) tok = None"
            by (simp_all add: same_shape_def)
          with k show "probe_parent k r tok (rs'', w'') = Some (Inr JUndefined, (rs'', w''))"
            by (simp add: probe_parent_def)
        qed
      next
        case dp: (Some dp)
        from cs Some have csp: "chain_settles rs p tok"
          by (auto simp: chain_settles_def intro: in_chain.up)
        from run d n Singleton Some obtain res1 rs1 w1 where
          p1: "internalResolve k p tok (rs, w) = Some (res1, (rs1, w1))"
          by (auto simp: internalResolve_singleton probe_parent_def
              simp del: internalResolve.simps instantiate.simps split: option.splits)
        with run d n Singleton Some obtain u where u: "res1 = Inr u"
          by (cases res1) (auto simp: internalResolve_singleton probe_parent_def
              simp del: internalResolve.simps instantiate.simps)
        from less.IH[OF pr(1) pr(2) csp dp p1[unfolded u]]
        have tu: "truthy u" and sh1: "same_shape rs rs1"
          and st: "\<And>w''. internalResolve k p tok (rs1, w'') = Some (Inr u, (rs1, w''))"
          by auto
        from run d n Singleton Some p1 u tu have res: "inst = u" "rs' = rs1"
          by (simp_all add: internalResolve_singleton probe_parent_def
              del: internalResolve.simps instantiate.simps)
        from sh1 d r Some have d1: "map_get (registrations (rs1 ! r)) tok = Some d"
          and par1: "parent (rs1 ! r) = Some p"
          by (simp_all add: same_shape_def)
        have "internalResolve n r tok (rs1, w'') = Some (Inr u, (rs1, w''))" for w''
          using d1 Singleton par1 st[of w''] tu n
          by (simp add: internalResolve_singleton probe_parent_def
              del: internalResolve.simps instantiate.simps)
        with res tu sh1 show ?thesis by simp
      qed
    qed
  qed
qed

lemma in_chain_iff:
  "in_chain rs r a \<longleftrightarrow> a = r \<or> (\<exists>p. parent (rs ! r) = Some p \<and> in_chain rs p a)"
  by (auto elim: in_chain.cases intro: in_chain.intros)

lemma settled_resolve:
  assumes "valid_store rs" "r < length rs" "chain_settles rs r tok"
    and "resolve n r tok (rs, w) = Some (Inr inst, (rs', w'))"
  shows "resolve n r tok (rs', w'') = Some (Inr inst, (rs', w''))"
proof -
  from assms(4) have ir: "internalResolve n r tok (rs, w) = Some (Inr inst, (rs', w'))"
    and ti: "truthy inst"
    by (auto simp del: internalResolve.simps split: option.splits sum.splits prod.splits if_splits)
  have "internalResolve n r tok (rs', w'') = Some (Inr inst, (rs', w''))"
  proof (cases "map_get (registrations (rs ! r)) tok")
    case None
    with ir ti show ?thesis by (cases n) auto
  next
    case (Some d)
    from settled_instance[OF assms(1,2,3) Some ir] show ?thesis by simp
  qed
  with ti show ?thesis by (simp del: internalResolve.simps)
qed

text \<open>
  C7, as amended. For a token registered as singleton, \<open>InternalResolve\<close> first asks the
  parent: a truthy answer is returned and this resolver is left as it was, nothing cached
  locally. Otherwise a truthy entry of the cache of this resolver is returned, or the
  instance is built, written to that cache and returned. When no parent registers the
  token, a successful \<open>resolve\<close> leaves the instance in the cache of this resolver and
  every later \<open>resolve\<close> returns that same instance and changes nothing. The same holds
  along a chain: when no resolver of the chain registers the token as transient, and the
  factories registered for it on the chain return no falsy value, a \<open>resolve\<close> that has
  returned an instance returns that instance again, from whichever resolver of the chain
  holds it, and changes nothing.
\<close>

theorem singleton_resolution:
  assumes d: "map_get (registrations (rs ! r)) tok = Some d" "lifetime d = Singleton"
    and v: "valid_store rs" "r < length rs"
  shows "(\<forall>u rs1 w1. probe_parent n r tok (rs, w) = Some (Inr u, (rs1, w1)) \<and> truthy u \<longrightarrow>
            internalResolve (Suc n) r tok (rs, w) = Some (Inr u, (rs1, w1)) \<and> rs1 ! r = rs ! r)
         \<and> (\<forall>u rs1 w1. probe_parent n r tok (rs, w) = Some (Inr u, (rs1, w1)) \<and> \<not> truthy u \<longrightarrow>
               internalResolve (Suc n) r tok (rs, w) =
                 (if truthy (cache_get rs1 r tok) then Some (Inr (cache_get rs1 r tok), (rs1, w1))
                  else cache_instance r tok (instantiate n r d (rs1, w1))))
         \<and> ((\<forall>p. parent (rs ! r) = Some p \<longrightarrow> map_get (registrations (rs ! p)) tok = None) \<longrightarrow>
               (\<forall>inst rs' w'.
                  resolve (Suc n) r tok (rs, w) = Some (Inr inst, (rs', w')) \<longrightarrow>
                  cache_get rs' r tok = inst
                  \<and> (\<forall>m w''. resolve (Suc (Suc m)) r tok (rs', w'') = Some (Inr inst, (rs', w'')))))
         \<and> (chain_settles rs r tok \<longrightarrow>
               (\<forall>inst rs' w'.
                  resolve (Suc n) r tok (rs, w) = Some (Inr inst, (rs', w')) \<longrightarrow>
                  (\<forall>w''. resolve (Suc n) r tok (rs', w'') = Some (Inr inst, (rs', w'')))))"
proof (intro conjI allI impI)
  fix u rs1 w1 assume p: "probe_parent n r tok (rs, w) = Some (Inr u, (rs1, w1)) \<and> truthy u"
  with d show "internalResolve (Suc n) r tok (rs, w) = Some (Inr u, (rs1, w1))"
    by (simp add: internalResolve_singleton del: internalResolve.simps)
  from p obtain q where q: "parent (rs ! r) = Some q"
    "internalResolve n q tok (rs, w) = Some (Inr u, (rs1, w1))"
    by (cases "parent (rs ! r)") (auto simp: probe_parent_def)
  with v have ql: "q < r" "q < length rs" by (auto simp: valid_store_def)
  with q v have "evolves q rs rs1"
    using resolve_evolves(1)[of n q tok "(rs, w)" "Inr u" "(rs1, w1)"] by simp
  moreover have "\<not> in_chain rs q r"
    using in_chain_below[of rs q r] v ql by auto
  ultimately show "rs1 ! r = rs ! r" using v by (simp add: evolves_def)
next
  fix u rs1 w1 assume "probe_parent n r tok (rs, w) = Some (Inr u, (rs1, w1)) \<and> \<not> truthy u"
  with d show "internalResolve (Suc n) r tok (rs, w) =
                 (if truthy (cache_get rs1 r tok) then Some (Inr (cache_get rs1 r tok), (rs1, w1))
                  else cache_instance r tok (instantiate n r d (rs1, w1)))"
    by (simp add: internalResolve_singleton del: internalResolve.simps instantiate.simps)
next
  fix inst rs' w'
  assume own: "\<forall>p. parent (rs ! r) = Some p \<longrightarrow> map_get (registrations (rs ! p)) tok = None"
    and run: "resolve (Suc n) r tok (rs, w) = Some (Inr inst, (rs', w'))"
  from run have ir: "internalResolve (Suc n) r tok (rs, w) = Some (Inr inst, (rs', w'))"
    and ti: "truthy inst"
    by (auto simp del: internalResolve.simps split: option.splits sum.splits prod.splits if_splits)
  from ir v have ev: "evolves r rs rs'"
    using resolve_evolves(1)[of "Suc n" r tok "(rs, w)" "Inr inst" "(rs', w')"] by simp
  then have sh: "same_shape rs rs'" by (rule evolves_same_shape)
  have pr: "probe_parent n r tok (rs, w) = Some (Inr JUndefined, (rs, w))"
  proof (cases "parent (rs ! r)")
    case None
    then show ?thesis by (simp add: probe_parent_def)
  next
    case (Some p)
    with own have np: "map_get (registrations (rs ! p)) tok = None" by simp
    from ir d Some obtain k where "n = Suc k"
      by (cases n) (auto simp: internalResolve_singleton probe_parent_def
          simp del: internalResolve.simps(2))
    with Some np show ?thesis by (simp add: probe_parent_def)
  qed
  with ir d have tail: "(if truthy (cache_get rs r tok) then Some (Inr (cache_get rs r tok), (rs, w))
                  else cache_instance r tok (instantiate n r d (rs, w)))
                 = Some (Inr inst, (rs', w'))"
    by (simp add: internalResolve_singleton del: internalResolve.simps instantiate.simps)
  show cached: "cache_get rs' r tok = inst"
  proof (cases "truthy (cache_get rs r tok)")
    case True
    with tail show ?thesis by auto
  next
    case False
    with tail obtain rs2 where i: "instantiate n r d (rs, w) = Some (Inr inst, (rs2, w'))"
      and rs': "rs' = cache_set r tok inst rs2"
      by (auto simp: cache_instance_def split: option.splits sum.splits prod.splits)
    from i v have "evolves r rs rs2"
      using resolve_evolves(4)[of n r d "(rs, w)" "Inr inst" "(rs2, w')"] by simp
    with v have "r < length rs2" by (simp add: evolves_length)
    with rs' show ?thesis by (simp add: cache_get_cache_set)
  qed
  fix m w''
  from sh v d have d': "map_get (registrations (rs' ! r)) tok = Some d"
    by (simp add: same_shape_def)
  have pr': "probe_parent (Suc m) r tok (rs', w'') = Some (Inr JUndefined, (rs', w''))"
  proof (cases "parent (rs ! r)")
    case None
    with sh v show ?thesis by (simp add: probe_parent_def same_shape_def)
  next
    case (Some p)
    with v have "p < length rs" by (auto simp: valid_store_def)
    with sh own Some have "map_get (registrations (rs' ! p)) tok = None"
      by (simp add: same_shape_def)
    moreover from sh v Some have "parent (rs' ! r) = Some p" by (simp add: same_shape_def)
    ultimately show ?thesis by (simp add: probe_parent_def)
  qed
  from d' d(2) pr' cached ti
  have "internalResolve (Suc (Suc m)) r tok (rs', w'') = Some (Inr inst, (rs', w''))"
    by (simp add: internalResolve_singleton del: internalResolve.simps instantiate.simps)
  with ti show "resolve (Suc (Suc m)) r tok (rs', w'') = Some (Inr inst, (rs', w''))"
    by (simp del: internalResolve.simps)
next
  fix inst rs' w' w''
  assume "chain_settles rs r tok"
    and "resolve (Suc n) r tok (rs, w) = Some (Inr inst, (rs', w'))"
  with v show "resolve (Suc n) r tok (rs', w'') = Some (Inr inst, (rs', w''))"
    by (rule settled_resolve)
qed

theorem singleton_resolution_witness:
  "map_get (registrations ([root_of [(0, svc [] Singleton)], child_of 0 [(0, svc [] Singleton)]] ! 1)) 0
     = Some (svc [] Singleton)
   \<and> lifetime (svc [] Singleton) = Singleton
   \<and> valid_store [root_of [(0, svc [] Singleton)], child_of 0 [(0, svc [] Singleton)]]
   \<and> (1::nat) < length [root_of [(0, svc [] Singleton)], child_of 0 [(0, svc [] Singleton)]]
   \<and> resolve (Suc (Suc 0)) 1 0
         ([root_of [(0, svc [] Singleton)], child_of 0 [(0, svc [] Singleton)]], 0)
       = Some (Inr (JObj 0),
               ([\<lparr>registrations = [(0, svc [] Singleton)], parent = None, cache = [(0, JObj 0)]\<rparr>,
                 child_of 0 [(0, svc [] Singleton)]], 1))
   \<and> resolve (Suc (Suc 0)) 1 0
         ([\<lparr>registrations = [(0, svc [] Singleton)], parent = None, cache = [(0, JObj 0)]\<rparr>,
           child_of 0 [(0, svc [] Singleton)]], 1)
       = Some (Inr (JObj 0),
               ([\<lparr>registrations = [(0, svc [] Singleton)], parent = None, cache = [(0, JObj 0)]\<rparr>,
                 child_of 0 [(0, svc [] Singleton)]], 1))"
proof -
  let ?rs = "[root_of [(0, svc [] Singleton)], child_of 0 [(0, svc [] Singleton)]]"
  let ?rs' = "[\<lparr>registrations = [(0, svc [] Singleton)], parent = None, cache = [(0, JObj 0)]\<rparr>,
                 child_of 0 [(0, svc [] Singleton)]]"
  have l: "lifetime (svc [] Singleton) = Singleton"
    by (simp add: svc_def makeServiceDefinition_def)
  have d: "map_get (registrations (?rs ! 1)) 0 = Some (svc [] Singleton)"
    by (simp add: child_of_def map_get_def)
  have v: "valid_store ?rs" "(1::nat) < length ?rs"
    by (simp_all add: valid_store_def less_Suc_eq root_of_def child_of_def)
  have tf: "truthy_factory (svc [] Singleton)"
    by (simp add: truthy_factory_def svc_def makeServiceDefinition_def alloc_def)
  have ch: "a = 0 \<or> a = 1" if "in_chain ?rs 1 a" for a
    using that in_chain_iff[of ?rs 1 a] in_chain_iff[of ?rs 0 a]
    by (auto simp: child_of_def root_of_def)
  have cs: "chain_settles ?rs 1 0"
    unfolding chain_settles_def
  proof (intro allI impI)
    fix a d assume "in_chain ?rs 1 a" and g: "map_get (registrations (?rs ! a)) 0 = Some d"
    from ch[OF this(1)] g have "d = svc [] Singleton"
      by (auto simp: child_of_def root_of_def map_get_def)
    with tf l show "lifetime d \<noteq> Transient \<and> truthy_factory d" by simp
  qed
  have first: "resolve (Suc (Suc 0)) 1 0 (?rs, 0) = Some (Inr (JObj 0), (?rs', 1))"
    by (simp add: root_of_def child_of_def map_get_def svc_def makeServiceDefinition_def alloc_def
        cache_get_def cache_instance_def cache_set_def)
  from singleton_resolution [OF d l v, of "Suc 0" 0] cs first
  have "resolve (Suc (Suc 0)) 1 0 (?rs', 1) = Some (Inr (JObj 0), (?rs', 1))"
    by blast
  with d l v first show ?thesis by blast
qed

text \<open>
  C7 as stated fails: the parent registers token \<open>0\<close> as transient, and \<open>resolver(parent)\<close>
  makes a child of it from a registry that registers token \<open>0\<close> as singleton. Two
  \<open>resolve\<close> calls on the child return two different objects, each a new instance made
  by the parent.
\<close>

theorem singleton_transient_parent_counterexample:
  "resolver (createInnerContainer [] [0] 0) (Some 0) [[(0, svc [] Singleton)]]
        [root_of [(0, svc [] Transient)]]
       = Inr (1, [root_of [(0, svc [] Transient)], child_of 0 [(0, svc [] Singleton)]])
   \<and> lifetime (the (map_get (registrations
        ([root_of [(0, svc [] Transient)], child_of 0 [(0, svc [] Singleton)]] ! 1)) 0)) = Singleton
   \<and> resolve 2 1 0 ([root_of [(0, svc [] Transient)], child_of 0 [(0, svc [] Singleton)]], 0)
       = Some (Inr (JObj 0), ([root_of [(0, svc [] Transient)], child_of 0 [(0, svc [] Singleton)]], 1))
   \<and> resolve 2 1 0 ([root_of [(0, svc [] Transient)], child_of 0 [(0, svc [] Singleton)]], 1)
       = Some (Inr (JObj 1), ([root_of [(0, svc [] Transient)], child_of 0 [(0, svc [] Singleton)]], 2))
   \<and> JObj 0 \<noteq> JObj 1"
proof -
  let ?rs = "[root_of [(0, svc [] Transient)], child_of 0 [(0, svc [] Singleton)]]"
  have g: "graphFromServiceMap [(0, svc [] Singleton)] = [(0, [])]"
    by (simp add: graphFromServiceMap_def svc_def makeServiceDefinition_def)
  have "\<not> isCyclic [(0, [])]"
    by (simp add: isCyclic_def map_keys_def neighbors_def map_get_def)
  with g have m: "resolver (createInnerContainer [] [0] 0) (Some 0) [[(0, svc [] Singleton)]]
        [root_of [(0, svc [] Transient)]] = Inr (1, ?rs)"
    by (simp add: resolver_def checkForCycles_def createInnerContainer_def Let_def root_of_def
        child_of_def InternalCheckInheriting_result map_keys_def)
  have l: "lifetime (the (map_get (registrations (?rs ! 1)) 0)) = Singleton"
    by (simp add: child_of_def map_get_def svc_def makeServiceDefinition_def)
  have r0: "resolve 2 1 0 (?rs, 0) = Some (Inr (JObj 0), (?rs, 1))"
    by (simp add: root_of_def child_of_def map_get_def svc_def makeServiceDefinition_def
        alloc_def numeral_2_eq_2)
  have r1: "resolve 2 1 0 (?rs, 1) = Some (Inr (JObj 1), (?rs, 2))"
    by (simp add: root_of_def child_of_def map_get_def svc_def makeServiceDefinition_def
        alloc_def numeral_2_eq_2)
  have n: "JObj 0 \<noteq> JObj 1" by simp
  from m l r0 r1 n show ?thesis by (simp only: simp_thms)
qed

section \<open>Construction of an instance\<close>

lemma resolveAll_resolved_in_order:
  "resolveAll n r toks s = Some (Inr args, s') \<longleftrightarrow> resolved_in_order n r toks s args s'"
proof (induction toks arbitrary: s args)
  case Nil
  then show ?case by auto
next
  case (Cons tok rest)
  show ?case
  proof (cases "resolve n r tok s")
    case None
    then show ?thesis by (simp del: resolve.simps split: list.splits)
  next
    case (Some out)
    obtain res s1 where out: "out = (res, s1)" by (cases out)
    show ?thesis
    proof (cases res)
      case (Inl e)
      with Some out show ?thesis by (simp del: resolve.simps split: list.splits)
    next
      case (Inr v)
      show ?thesis
      proof (cases args)
        case Nil
        with Some out Inr show ?thesis
          by (simp del: resolve.simps split: option.splits sum.splits prod.splits)
      next
        case (Cons a as)
        with Some out Inr Cons.IH[of s1 as] show ?thesis
          by (auto simp del: resolve.simps split: option.splits sum.splits prod.splits)
      qed
    qed
  qed
qed

lemma resolved_in_order_length:
  "resolved_in_order n r toks s args s' \<Longrightarrow> length args = length toks"
  by (simp add: resolveAll_resolved_in_order[symmetric] resolveAll_length)

lemma resolveAll_truthy:
  "resolveAll n r toks s = Some (Inr args, s') \<Longrightarrow> v \<in> set args \<Longrightarrow> truthy v"
proof (induction toks arbitrary: s args)
  case Nil
  then show ?case by simp
next
  case (Cons tok rest)
  from Cons.prems(1) obtain a as s1 where r1: "resolve n r tok s = Some (Inr a, s1)"
    and r2: "resolveAll n r rest s1 = Some (Inr as, s')" and args: "args = a # as"
    by (rule resolveAll_Cons_Inr)
  from r1 have "truthy a" by (rule resolve_Inr_truthy)
  with Cons.IH[OF r2] Cons.prems(2) args show ?case by auto
qed

lemma resolved_in_order_truthy:
  "resolved_in_order n r toks s args s' \<Longrightarrow> v \<in> set args \<Longrightarrow> truthy v"
  by (simp add: resolveAll_resolved_in_order[symmetric] resolveAll_truthy)

lemma resolved_in_order_evolves:
  assumes "resolved_in_order n r toks (rs, w) args (rs', w')" "valid_store rs" "r < length rs"
  shows "evolves r rs rs'"
proof -
  from assms(1) have "resolveAll n r toks (rs, w) = Some (Inr args, (rs', w'))"
    by (simp add: resolveAll_resolved_in_order)
  with assms(2,3) show ?thesis
    using resolve_evolves(3)[of n r toks "(rs, w)" "Inr args" "(rs', w')"] by simp
qed

lemma instantiate_resolved:
  assumes "resolved_in_order n r (requires d) s args (rs2, w2)"
  shows "instantiate n r d s =
           Some (case factory d args w2 of
                   (Inl thrown, w3) \<Rightarrow> (Inl (FactoryFailure thrown), (rs2, w3))
                 | (Inr inst, w3) \<Rightarrow> (Inr inst, (rs2, w3)))"
proof -
  from assms have "resolveAll n r (requires d) s = Some (Inr args, (rs2, w2))"
    by (simp add: resolveAll_resolved_in_order)
  then show ?thesis by (simp split: prod.splits sum.splits)
qed

lemma instantiate_Inr_iff:
  "instantiate n r d s = Some (Inr inst, (rs2, w3)) \<longleftrightarrow>
     (\<exists>args w2. resolved_in_order n r (requires d) s args (rs2, w2)
                \<and> factory d args w2 = (Inr inst, w3))"
proof
  assume "instantiate n r d s = Some (Inr inst, (rs2, w3))"
  then obtain args w2 where "resolveAll n r (requires d) s = Some (Inr args, (rs2, w2))"
    "factory d args w2 = (Inr inst, w3)"
    by (auto split: option.splits sum.splits prod.splits)
  then show "\<exists>args w2. resolved_in_order n r (requires d) s args (rs2, w2)
                \<and> factory d args w2 = (Inr inst, w3)"
    by (auto simp: resolveAll_resolved_in_order)
next
  assume "\<exists>args w2. resolved_in_order n r (requires d) s args (rs2, w2)
                \<and> factory d args w2 = (Inr inst, w3)"
  then obtain args w2 where o: "resolved_in_order n r (requires d) s args (rs2, w2)"
    and f: "factory d args w2 = (Inr inst, w3)" by blast
  from instantiate_resolved[OF o] f show "instantiate n r d s = Some (Inr inst, (rs2, w3))"
    by (simp del: instantiate.simps)
qed

lemma map_of_map_set: "map_of (map_set k v m) = (map_of m)(k \<mapsto> v)"
proof
  fix k'
  from map_get_map_set[of k v m k'] show "map_of (map_set k v m) k' = ((map_of m)(k \<mapsto> v)) k'"
    by (simp add: map_get_def)
qed

lemma cached_in_cache_set: "r < length rs \<Longrightarrow> cached_in r tok inst rs (cache_set r tok inst rs)"
  by (simp add: cached_in_def nth_cache_set length_cache_set map_of_map_set)

lemma cached_in_unique:
  "cached_in r tok inst rs rs' \<Longrightarrow> map_of (cache (rs' ! r)) tok = Some inst"
  by (simp add: cached_in_def)

lemma cache_get_truthy_iff:
  "truthy (cache_get rs r tok) \<longleftrightarrow> (\<exists>c. map_of (cache (rs ! r)) tok = Some c \<and> truthy c)"
  by (auto simp: cache_get_def map_get_def split: option.splits)

lemma cache_get_Some: "map_of (cache (rs ! r)) tok = Some c \<Longrightarrow> cache_get rs r tok = c"
  by (simp add: cache_get_def map_get_def)

lemma probe_parent_declines:
  "(\<exists>u. probe_parent n r tok s = Some (Inr u, s1) \<and> \<not> truthy u) \<longleftrightarrow> parent_declines n r tok s s1"
  by (cases "parent (fst s ! r)")
     (auto simp: probe_parent_def parent_declines_def simp del: internalResolve.simps
           split: option.splits sum.splits prod.splits)

lemma parent_declines_evolves:
  assumes "parent_declines n r tok (rs, w) (rs1, w1)" "valid_store rs" "r < length rs"
  shows "evolves r rs rs1"
proof -
  from assms(1) obtain u where "probe_parent n r tok (rs, w) = Some (Inr u, (rs1, w1))"
    by (auto simp: probe_parent_declines[symmetric])
  then show ?thesis using assms(2,3) by (rule probe_parent_evolves)
qed

text \<open>
  Local construction. Where the parent has declined (singleton, transient) and the cache
  holds no truthy entry (scoped, singleton), the outcome is that of the factory on the
  resolved dependencies, the instance cached unless the token is transient.
\<close>

lemma local_construction:
  assumes d: "map_get (registrations (rs ! r)) tok = Some d"
    and v: "valid_store rs" "r < length rs"
    and start: "if lifetime d = Scoped then (rs1, w1) = (rs, w)
                else parent_declines n r tok (rs, w) (rs1, w1)"
    and unc: "lifetime d \<noteq> Transient \<longrightarrow>
                (\<forall>c. map_of (cache (rs1 ! r)) tok = Some c \<longrightarrow> \<not> truthy c)"
    and ord: "resolved_in_order n r (requires d) (rs1, w1) args (rs2, w2)"
  shows "(\<forall>thrown w3. factory d args w2 = (Inl thrown, w3) \<longrightarrow>
            internalResolve (Suc n) r tok (rs, w) = Some (Inl (FactoryFailure thrown), (rs2, w3)))
         \<and> (\<forall>inst w3. factory d args w2 = (Inr inst, w3) \<longrightarrow>
               (\<exists>rs'. internalResolve (Suc n) r tok (rs, w) = Some (Inr inst, (rs', w3))
                      \<and> (if lifetime d = Transient then rs' = rs2
                          else cached_in r tok inst rs2 rs')))"
proof -
  have e1: "evolves r rs rs1"
  proof (cases "lifetime d = Scoped")
    case True
    with start show ?thesis by (simp add: evolves_refl)
  next
    case False
    with start v show ?thesis by (auto intro: parent_declines_evolves)
  qed
  with v have v1: "valid_store rs1" "r < length rs1"
    by (auto simp: evolves_valid evolves_length)
  from ord v1 have "evolves r rs1 rs2" by (rule resolved_in_order_evolves)
  with v1 have len: "r < length rs2" by (simp add: evolves_length)
  note i = instantiate_resolved[OF ord]
  from unc have nc: "lifetime d \<noteq> Transient \<Longrightarrow> \<not> truthy (cache_get rs1 r tok)"
    by (auto simp: cache_get_truthy_iff)
  have pp: "lifetime d \<noteq> Scoped \<Longrightarrow>
              \<exists>u. probe_parent n r tok (rs, w) = Some (Inr u, (rs1, w1)) \<and> \<not> truthy u"
    using start by (simp add: probe_parent_declines)
  show ?thesis
  proof (cases "lifetime d")
    case Scoped
    with d start nc i len show ?thesis
      by (auto simp: internalResolve_scoped cache_instance_def cached_in_cache_set
          simp del: internalResolve.simps instantiate.simps)
  next
    case Singleton
    with pp obtain u where "probe_parent n r tok (rs, w) = Some (Inr u, (rs1, w1))" "\<not> truthy u"
      by auto
    with Singleton d nc i len show ?thesis
      by (auto simp: internalResolve_singleton cache_instance_def cached_in_cache_set
          simp del: internalResolve.simps instantiate.simps)
  next
    case Transient
    with pp obtain u where "probe_parent n r tok (rs, w) = Some (Inr u, (rs1, w1))" "\<not> truthy u"
      by auto
    with Transient d i show ?thesis
      by (auto simp: internalResolve_transient
          simp del: internalResolve.simps instantiate.simps)
  qed
qed

text \<open>Conversely, every instance that \<open>InternalResolve\<close> returns for a registered token is the
  answer of the parent, the entry of the cache, or the result of a local construction.\<close>

lemma instance_origin:
  assumes d: "map_get (registrations (rs ! r)) tok = Some d"
    and v: "valid_store rs" "r < length rs"
    and run: "internalResolve (Suc n) r tok (rs, w) = Some (Inr inst, (rs', w'))"
  shows "(lifetime d \<noteq> Scoped
            \<and> (\<exists>p. parent (rs ! r) = Some p
                    \<and> internalResolve n p tok (rs, w) = Some (Inr inst, (rs', w')) \<and> truthy inst))
         \<or> (lifetime d \<noteq> Transient
               \<and> (if lifetime d = Scoped then (rs', w') = (rs, w)
                    else parent_declines n r tok (rs, w) (rs', w'))
               \<and> map_of (cache (rs' ! r)) tok = Some inst \<and> truthy inst)
         \<or> (\<exists>rs1 w1 args rs2 w2.
               (if lifetime d = Scoped then (rs1, w1) = (rs, w)
                else parent_declines n r tok (rs, w) (rs1, w1))
               \<and> (lifetime d \<noteq> Transient \<longrightarrow>
                     (\<forall>c. map_of (cache (rs1 ! r)) tok = Some c \<longrightarrow> \<not> truthy c))
               \<and> resolved_in_order n r (requires d) (rs1, w1) args (rs2, w2)
               \<and> factory d args w2 = (Inr inst, w')
               \<and> (if lifetime d = Transient then rs' = rs2 else cached_in r tok inst rs2 rs'))"
    (is "?P \<or> ?C \<or> ?L")
proof -
  have local: ?L
    if start: "if lifetime d = Scoped then (rs1, w1) = (rs, w)
               else parent_declines n r tok (rs, w) (rs1, w1)"
      and nc: "lifetime d \<noteq> Transient \<Longrightarrow> \<not> truthy (cache_get rs1 r tok)"
      and i: "instantiate n r d (rs1, w1) = Some (Inr inst, (rs2, w'))"
      and fin: "if lifetime d = Transient then rs' = rs2 else rs' = cache_set r tok inst rs2"
    for rs1 w1 rs2
  proof -
    have e1: "evolves r rs rs1"
    proof (cases "lifetime d = Scoped")
      case True
      with start show ?thesis by (simp add: evolves_refl)
    next
      case False
      with start v show ?thesis by (auto intro: parent_declines_evolves)
    qed
    with v have v1: "valid_store rs1" "r < length rs1"
      by (auto simp: evolves_valid evolves_length)
    from i v1 have "evolves r rs1 rs2"
      using resolve_evolves(4)[of n r d "(rs1, w1)" "Inr inst" "(rs2, w')"] by simp
    with v1 have len: "r < length rs2" by (simp add: evolves_length)
    from i obtain args w2 where o: "resolved_in_order n r (requires d) (rs1, w1) args (rs2, w2)"
      and f: "factory d args w2 = (Inr inst, w')"
      by (auto simp: instantiate_Inr_iff simp del: instantiate.simps)
    from fin len have c: "if lifetime d = Transient then rs' = rs2 else cached_in r tok inst rs2 rs'"
      by (auto simp: cached_in_cache_set)
    from nc have u: "lifetime d \<noteq> Transient \<longrightarrow>
                     (\<forall>c. map_of (cache (rs1 ! r)) tok = Some c \<longrightarrow> \<not> truthy c)"
      by (auto simp: cache_get_truthy_iff)
    from start u o f c show ?thesis by blast
  qed
  show ?thesis
  proof (cases "lifetime d")
    case Scoped
    show ?thesis
    proof (cases "truthy (cache_get rs r tok)")
      case True
      with d Scoped run have "rs' = rs" "w' = w" "inst = cache_get rs r tok"
        by (auto simp: internalResolve_scoped simp del: internalResolve.simps)
      with True Scoped have ?C
        by (auto simp: cache_get_truthy_iff cache_get_Some)
      then show ?thesis by blast
    next
      case False
      with d Scoped run
      have "cache_instance r tok (instantiate n r d (rs, w)) = Some (Inr inst, (rs', w'))"
        by (simp add: internalResolve_scoped del: internalResolve.simps instantiate.simps)
      then obtain rs2 where "instantiate n r d (rs, w) = Some (Inr inst, (rs2, w'))"
        "rs' = cache_set r tok inst rs2" by (rule cache_instance_Inr)
      with Scoped False have ?L by (intro local[of rs w rs2]) auto
      then show ?thesis by blast
    qed
  next
    case Singleton
    from d Singleton run obtain u rs1 w1 where
      pp: "probe_parent n r tok (rs, w) = Some (Inr u, (rs1, w1))"
      by (auto simp: internalResolve_singleton simp del: internalResolve.simps instantiate.simps
          split: option.splits sum.splits prod.splits)
    show ?thesis
    proof (cases "truthy u")
      case True
      with d Singleton run pp have eq: "inst = u" "rs' = rs1" "w' = w1"
        by (auto simp: internalResolve_singleton simp del: internalResolve.simps instantiate.simps)
      from True pp obtain p where "parent (rs ! r) = Some p"
        by (cases "parent (rs ! r)") (auto simp: probe_parent_def)
      with pp eq True Singleton have ?P
        by (auto simp: probe_parent_def simp del: internalResolve.simps)
      then show ?thesis by blast
    next
      case nu: False
      with pp have pd: "parent_declines n r tok (rs, w) (rs1, w1)"
        by (auto simp: probe_parent_declines[symmetric])
      show ?thesis
      proof (cases "truthy (cache_get rs1 r tok)")
        case True
        with d Singleton run pp nu have "rs' = rs1" "w' = w1" "inst = cache_get rs1 r tok"
          by (auto simp: internalResolve_singleton simp del: internalResolve.simps instantiate.simps)
        with True Singleton pd have ?C
          by (auto simp: cache_get_truthy_iff cache_get_Some)
        then show ?thesis by blast
      next
        case False
        with d Singleton run pp nu
        have "cache_instance r tok (instantiate n r d (rs1, w1)) = Some (Inr inst, (rs', w'))"
          by (simp add: internalResolve_singleton del: internalResolve.simps instantiate.simps)
        then obtain rs2 where "instantiate n r d (rs1, w1) = Some (Inr inst, (rs2, w'))"
          "rs' = cache_set r tok inst rs2" by (rule cache_instance_Inr)
        with Singleton False pd have ?L by (intro local[of rs1 w1 rs2]) auto
        then show ?thesis by blast
      qed
    qed
  next
    case Transient
    from d Transient run obtain u rs1 w1 where
      pp: "probe_parent n r tok (rs, w) = Some (Inr u, (rs1, w1))"
      by (auto simp: internalResolve_transient simp del: internalResolve.simps instantiate.simps
          split: option.splits sum.splits prod.splits)
    show ?thesis
    proof (cases "truthy u")
      case True
      with d Transient run pp have eq: "inst = u" "rs' = rs1" "w' = w1"
        by (auto simp: internalResolve_transient simp del: internalResolve.simps instantiate.simps)
      from True pp obtain p where "parent (rs ! r) = Some p"
        by (cases "parent (rs ! r)") (auto simp: probe_parent_def)
      with pp eq True Transient have ?P
        by (auto simp: probe_parent_def simp del: internalResolve.simps)
      then show ?thesis by blast
    next
      case nu: False
      with pp have pd: "parent_declines n r tok (rs, w) (rs1, w1)"
        by (auto simp: probe_parent_declines[symmetric])
      from d Transient run pp nu
      have "instantiate n r d (rs1, w1) = Some (Inr inst, (rs', w'))"
        by (simp add: internalResolve_transient del: internalResolve.simps instantiate.simps)
      with Transient pd have ?L by (intro local[of rs1 w1 rs']) auto
      then show ?thesis by blast
    qed
  qed
qed

lemma resolved_in_order_nth:
  assumes "resolved_in_order n r toks s args s'" "i < length toks"
  shows "\<exists>si si'. resolved_in_order n r (take i toks) s (take i args) si
            \<and> resolve n r (toks ! i) si = Some (Inr (args ! i), si')
            \<and> truthy (args ! i)"
proof -
  from assms(1) have "resolveAll n r toks s = Some (Inr args, s')"
    by (simp add: resolveAll_resolved_in_order)
  from resolveAll_in_order[OF this assms(2)] obtain si si' where
    o: "resolveAll n r (take i toks) s = Some (Inr (take i args), si)"
       "resolve n r (toks ! i) si = Some (Inr (args ! i), si')" by blast
  from o(2) have t: "truthy (args ! i)" by (rule resolve_Inr_truthy)
  from o(1) have "resolved_in_order n r (take i toks) s (take i args) si"
    by (simp add: resolveAll_resolved_in_order)
  with o(2) t show ?thesis by blast
qed

text \<open>
  C9. For a registered token of any lifetime, every instance that \<open>InternalResolve\<close> returns
  is the truthy answer of the parent (singleton, transient), the truthy entry of the cache
  (scoped, singleton), or has been constructed; and it is constructed exactly in this way:
  the tokens of \<open>requires\<close> are resolved by \<open>resolve\<close> from left to right, each in the state
  that the earlier ones have left, which gives one truthy value per entry of \<open>requires\<close> in
  the order of \<open>requires\<close>; the factory is then applied to these values in the world that
  the resolution of the last dependency has left, so every dependency has returned from
  \<open>resolve\<close>, its own factory run, before the factory of the dependent starts. Conversely,
  whenever the parent has declined, the cache holds no truthy entry and the dependencies
  resolve, the outcome of \<open>InternalResolve\<close> is that of the factory on their values.
\<close>

theorem construction_post_order:
  assumes d: "map_get (registrations (rs ! r)) tok = Some d"
    and v: "valid_store rs" "r < length rs"
  shows "(\<forall>inst rs' w'.
            internalResolve (Suc n) r tok (rs, w) = Some (Inr inst, (rs', w')) \<longrightarrow>
            (lifetime d \<noteq> Scoped
               \<and> (\<exists>p. parent (rs ! r) = Some p
                       \<and> internalResolve n p tok (rs, w) = Some (Inr inst, (rs', w'))
                       \<and> truthy inst))
            \<or> (lifetime d \<noteq> Transient
                  \<and> (if lifetime d = Scoped then (rs', w') = (rs, w)
                       else parent_declines n r tok (rs, w) (rs', w'))
                  \<and> map_of (cache (rs' ! r)) tok = Some inst \<and> truthy inst)
            \<or> (\<exists>rs1 w1 args rs2 w2.
                  (if lifetime d = Scoped then (rs1, w1) = (rs, w)
                   else parent_declines n r tok (rs, w) (rs1, w1))
                  \<and> resolved_in_order n r (requires d) (rs1, w1) args (rs2, w2)
                  \<and> length args = length (requires d)
                  \<and> (\<forall>i < length (requires d).
                        \<exists>si si'. resolved_in_order n r (take i (requires d)) (rs1, w1) (take i args) si
                           \<and> resolve n r (requires d ! i) si = Some (Inr (args ! i), si')
                           \<and> truthy (args ! i))
                  \<and> factory d args w2 = (Inr inst, w')
                  \<and> (if lifetime d = Transient then rs' = rs2
                       else cached_in r tok inst rs2 rs')))
         \<and> (\<forall>rs1 w1 args rs2 w2.
               (if lifetime d = Scoped then (rs1, w1) = (rs, w)
                else parent_declines n r tok (rs, w) (rs1, w1))
               \<and> (lifetime d \<noteq> Transient \<longrightarrow>
                     (\<forall>c. map_of (cache (rs1 ! r)) tok = Some c \<longrightarrow> \<not> truthy c))
               \<and> resolved_in_order n r (requires d) (rs1, w1) args (rs2, w2) \<longrightarrow>
               (\<forall>thrown w3. factory d args w2 = (Inl thrown, w3) \<longrightarrow>
                  internalResolve (Suc n) r tok (rs, w)
                    = Some (Inl (FactoryFailure thrown), (rs2, w3)))
               \<and> (\<forall>inst w3. factory d args w2 = (Inr inst, w3) \<longrightarrow>
                     (\<exists>rs'. internalResolve (Suc n) r tok (rs, w) = Some (Inr inst, (rs', w3))
                            \<and> (if lifetime d = Transient then rs' = rs2
                                 else cached_in r tok inst rs2 rs'))))"
proof (intro conjI allI impI)
  fix inst rs' w'
  assume run: "internalResolve (Suc n) r tok (rs, w) = Some (Inr inst, (rs', w'))"
  from instance_origin[OF d v run]
  consider
    (P) "lifetime d \<noteq> Scoped
            \<and> (\<exists>p. parent (rs ! r) = Some p
                    \<and> internalResolve n p tok (rs, w) = Some (Inr inst, (rs', w')) \<and> truthy inst)"
  | (C) "lifetime d \<noteq> Transient
               \<and> (if lifetime d = Scoped then (rs', w') = (rs, w)
                    else parent_declines n r tok (rs, w) (rs', w'))
               \<and> map_of (cache (rs' ! r)) tok = Some inst \<and> truthy inst"
  | (L) rs1 w1 args rs2 w2 where
      "if lifetime d = Scoped then (rs1, w1) = (rs, w)
       else parent_declines n r tok (rs, w) (rs1, w1)"
      "resolved_in_order n r (requires d) (rs1, w1) args (rs2, w2)"
      "factory d args w2 = (Inr inst, w')"
      "if lifetime d = Transient then rs' = rs2 else cached_in r tok inst rs2 rs'"
    by blast
  then show "(lifetime d \<noteq> Scoped
               \<and> (\<exists>p. parent (rs ! r) = Some p
                       \<and> internalResolve n p tok (rs, w) = Some (Inr inst, (rs', w'))
                       \<and> truthy inst))
            \<or> (lifetime d \<noteq> Transient
                  \<and> (if lifetime d = Scoped then (rs', w') = (rs, w)
                       else parent_declines n r tok (rs, w) (rs', w'))
                  \<and> map_of (cache (rs' ! r)) tok = Some inst \<and> truthy inst)
            \<or> (\<exists>rs1 w1 args rs2 w2.
                  (if lifetime d = Scoped then (rs1, w1) = (rs, w)
                   else parent_declines n r tok (rs, w) (rs1, w1))
                  \<and> resolved_in_order n r (requires d) (rs1, w1) args (rs2, w2)
                  \<and> length args = length (requires d)
                  \<and> (\<forall>i < length (requires d).
                        \<exists>si si'. resolved_in_order n r (take i (requires d)) (rs1, w1) (take i args) si
                           \<and> resolve n r (requires d ! i) si = Some (Inr (args ! i), si')
                           \<and> truthy (args ! i))
                  \<and> factory d args w2 = (Inr inst, w')
                  \<and> (if lifetime d = Transient then rs' = rs2
                       else cached_in r tok inst rs2 rs'))"
  proof cases
    case P
    then show ?thesis by blast
  next
    case C
    then show ?thesis by blast
  next
    case L
    from L(2) have len: "length args = length (requires d)" by (rule resolved_in_order_length)
    have nth: "\<forall>i < length (requires d).
                 \<exists>si si'. resolved_in_order n r (take i (requires d)) (rs1, w1) (take i args) si
                    \<and> resolve n r (requires d ! i) si = Some (Inr (args ! i), si')
                    \<and> truthy (args ! i)"
      using resolved_in_order_nth[OF L(2)] by blast
    from L len nth show ?thesis by blast
  qed
next
  fix rs1 w1 args rs2 w2 thrown w3
  assume h: "(if lifetime d = Scoped then (rs1, w1) = (rs, w)
                else parent_declines n r tok (rs, w) (rs1, w1))
               \<and> (lifetime d \<noteq> Transient \<longrightarrow>
                     (\<forall>c. map_of (cache (rs1 ! r)) tok = Some c \<longrightarrow> \<not> truthy c))
               \<and> resolved_in_order n r (requires d) (rs1, w1) args (rs2, w2)"
    and f: "factory d args w2 = (Inl thrown, w3)"
  from h have h1: "if lifetime d = Scoped then (rs1, w1) = (rs, w)
                   else parent_declines n r tok (rs, w) (rs1, w1)"
    and h2: "lifetime d \<noteq> Transient \<longrightarrow>
               (\<forall>c. map_of (cache (rs1 ! r)) tok = Some c \<longrightarrow> \<not> truthy c)"
    and h3: "resolved_in_order n r (requires d) (rs1, w1) args (rs2, w2)" by blast+
  from local_construction[OF d v h1 h2 h3] f show "internalResolve (Suc n) r tok (rs, w) = Some (Inl (FactoryFailure thrown), (rs2, w3))"
    by blast
next
  fix rs1 w1 args rs2 w2 inst w3
  assume h: "(if lifetime d = Scoped then (rs1, w1) = (rs, w)
                else parent_declines n r tok (rs, w) (rs1, w1))
               \<and> (lifetime d \<noteq> Transient \<longrightarrow>
                     (\<forall>c. map_of (cache (rs1 ! r)) tok = Some c \<longrightarrow> \<not> truthy c))
               \<and> resolved_in_order n r (requires d) (rs1, w1) args (rs2, w2)"
    and f: "factory d args w2 = (Inr inst, w3)"
  from h have h1: "if lifetime d = Scoped then (rs1, w1) = (rs, w)
                   else parent_declines n r tok (rs, w) (rs1, w1)"
    and h2: "lifetime d \<noteq> Transient \<longrightarrow>
               (\<forall>c. map_of (cache (rs1 ! r)) tok = Some c \<longrightarrow> \<not> truthy c)"
    and h3: "resolved_in_order n r (requires d) (rs1, w1) args (rs2, w2)" by blast+
  from local_construction[OF d v h1 h2 h3] f show "\<exists>rs'. internalResolve (Suc n) r tok (rs, w) = Some (Inr inst, (rs', w3))
                      \<and> (if lifetime d = Transient then rs' = rs2
                          else cached_in r tok inst rs2 rs')"
    by blast
qed

theorem construction_post_order_witness:
  "map_get (registrations (app_store [] [] [] ! 1)) 6 = Some (built [0, 4] Scoped 6)
   \<and> map_get (registrations (app_store [] [] [] ! 1)) 0 = Some (built [1, 2] Singleton 0)
   \<and> map_get (registrations (app_store [] [] [] ! 1)) 4 = Some (built [1, 2] Transient 4)
   \<and> internalResolve 4 1 6 (app_store [] [] [], [])
       = Some (Inr (JObj 4),
               (app_store [(1, JObj 0)] [(2, JObj 1), (0, JObj 2), (6, JObj 4)] [],
                [(1, []), (2, []), (0, [JObj 0, JObj 1]), (4, [JObj 0, JObj 1]),
                 (6, [JObj 2, JObj 3])]))
   \<and> resolved_in_order 3 1 [0, 4] (app_store [] [] [], []) [JObj 2, JObj 3]
        (app_store [(1, JObj 0)] [(2, JObj 1), (0, JObj 2)] [],
         [(1, []), (2, []), (0, [JObj 0, JObj 1]), (4, [JObj 0, JObj 1])])
   \<and> resolve 3 1 0 (app_store [] [] [], [])
       = Some (Inr (JObj 2),
               (app_store [(1, JObj 0)] [(2, JObj 1), (0, JObj 2)] [],
                [(1, []), (2, []), (0, [JObj 0, JObj 1])]))
   \<and> resolve 3 1 4 (app_store [(1, JObj 0)] [(2, JObj 1), (0, JObj 2)] [],
                      [(1, []), (2, []), (0, [JObj 0, JObj 1])])
       = Some (Inr (JObj 3),
               (app_store [(1, JObj 0)] [(2, JObj 1), (0, JObj 2)] [],
                [(1, []), (2, []), (0, [JObj 0, JObj 1]), (4, [JObj 0, JObj 1])]))
   \<and> cached_in 1 6 (JObj 4) (app_store [(1, JObj 0)] [(2, JObj 1), (0, JObj 2)] [])
        (app_store [(1, JObj 0)] [(2, JObj 1), (0, JObj 2), (6, JObj 4)] [])"
proof -
  let ?d = "built [0, 4] Scoped 6"
  let ?rs = "app_store [] [] []"
  let ?rs2 = "app_store [(1, JObj 0)] [(2, JObj 1), (0, JObj 2)] []"
  let ?rs' = "app_store [(1, JObj 0)] [(2, JObj 1), (0, JObj 2), (6, JObj 4)] []"
  let ?w1 = "[(1::nat, []), (2, []), (0, [JObj 0, JObj 1])]"
  let ?w2 = "[(1::nat, []), (2, []), (0, [JObj 0, JObj 1]), (4, [JObj 0, JObj 1])]"
  let ?w3 = "[(1::nat, []), (2, []), (0, [JObj 0, JObj 1]), (4, [JObj 0, JObj 1]),
              (6, [JObj 2, JObj 3])]"
  note ev = app_store_def app_root_def app_child_def built_def construct_def
    makeServiceDefinition_def map_get_def cache_get_def cache_set_def cache_instance_def
    numeral_eq_Suc
  have d: "map_get (registrations (?rs ! 1)) 6 = Some ?d"
    by (simp add: app_store_def app_child_def map_get_def)
  have d0: "map_get (registrations (?rs ! 1)) 0 = Some (built [1, 2] Singleton 0)"
    by (simp add: app_store_def app_child_def map_get_def)
  have d4: "map_get (registrations (?rs ! 1)) 4 = Some (built [1, 2] Transient 4)"
    by (simp add: app_store_def app_child_def map_get_def)
  have v: "valid_store ?rs" "(1::nat) < length ?rs"
    by (simp_all add: valid_store_def less_Suc_eq app_store_def)
  have r0: "resolve 3 1 0 (?rs, []) = Some (Inr (JObj 2), (?rs2, ?w1))"
    by (simp add: ev)
  have r4: "resolve 3 1 4 (?rs2, ?w1) = Some (Inr (JObj 3), (?rs2, ?w2))"
    by (simp add: ev)
  have run: "internalResolve 4 1 6 (?rs, []) = Some (Inr (JObj 4), (?rs', ?w3))"
    by (simp add: ev)
  from r0 r4 have ord: "resolved_in_order 3 1 (requires ?d) (?rs, []) [JObj 2, JObj 3] (?rs2, ?w2)"
    by (simp add: built_def makeServiceDefinition_def del: resolve.simps)
  have start: "if lifetime ?d = Scoped then (?rs, []) = (?rs, [])
               else parent_declines 3 1 6 (?rs, []) (?rs, [])"
    by (simp add: built_def makeServiceDefinition_def)
  have unc: "lifetime ?d \<noteq> Transient \<longrightarrow>
               (\<forall>c. map_of (cache (?rs ! 1)) 6 = Some c \<longrightarrow> \<not> truthy c)"
    by (simp add: app_store_def)
  have f: "factory ?d [JObj 2, JObj 3] ?w2 = (Inr (JObj 4), ?w3)"
    by (simp add: built_def makeServiceDefinition_def construct_def)
  have l: "lifetime ?d \<noteq> Transient" by (simp add: built_def makeServiceDefinition_def)
  from construction_post_order [OF d v, of 3 "[]"] start unc ord f
  have "\<exists>rs'. internalResolve (Suc 3) 1 6 (?rs, []) = Some (Inr (JObj 4), (rs', ?w3))
              \<and> (if lifetime ?d = Transient then rs' = ?rs2
                   else cached_in 1 6 (JObj 4) ?rs2 rs')"
    by blast
  then obtain rs' where a: "internalResolve (Suc 3) 1 6 (?rs, []) = Some (Inr (JObj 4), (rs', ?w3))"
    and c: "cached_in 1 6 (JObj 4) ?rs2 rs'" using l by auto
  have n: "Suc 3 = (4::nat)" by simp
  from a have "internalResolve 4 1 6 (?rs, []) = Some (Inr (JObj 4), (rs', ?w3))"
    by (simp only: n)
  with run have "rs' = ?rs'" by simp
  with c have c': "cached_in 1 6 (JObj 4) ?rs2 ?rs'" by simp
  from ord have ord': "resolved_in_order 3 1 [0, 4] (?rs, []) [JObj 2, JObj 3] (?rs2, ?w2)"
    by (simp only: built_def makeServiceDefinition_def ServiceDefinition.simps)
  from d d0 d4 run ord' r0 r4 c' show ?thesis by blast
qed

section \<open>Scoped and transient resolution\<close>

text \<open>
  C8. For a token registered as scoped, \<open>InternalResolve\<close> looks at the cache of this
  resolver only, and does not ask the parent. A truthy entry is returned with the state
  unchanged. Otherwise the tokens of \<open>requires\<close> are resolved in order, starting in the
  current state; the factory is applied to their values, and its instance is returned and
  written to the cache of this resolver under the token, nothing else being changed after
  the resolution of the dependencies (a throw of the factory is passed on, with nothing
  cached). Every instance returned has one of these two origins and is the entry of the
  cache afterwards. A resolver that is neither this one nor one of its ancestors is as it
  was, so the resolvers of two unrelated scopes each build and keep their own instance;
  with no dependencies no resolver but this one changes at all.
\<close>

theorem scoped_resolution:
  assumes d: "map_get (registrations (rs ! r)) tok = Some d" "lifetime d = Scoped"
    and v: "valid_store rs" "r < length rs"
  shows "(\<forall>c. map_of (cache (rs ! r)) tok = Some c \<and> truthy c \<longrightarrow>
            internalResolve (Suc n) r tok (rs, w) = Some (Inr c, (rs, w)))
         \<and> (\<forall>args rs2 w2.
               (\<forall>c. map_of (cache (rs ! r)) tok = Some c \<longrightarrow> \<not> truthy c)
               \<and> resolved_in_order n r (requires d) (rs, w) args (rs2, w2) \<longrightarrow>
               (\<forall>thrown w3. factory d args w2 = (Inl thrown, w3) \<longrightarrow>
                  internalResolve (Suc n) r tok (rs, w)
                    = Some (Inl (FactoryFailure thrown), (rs2, w3)))
               \<and> (\<forall>inst w3. factory d args w2 = (Inr inst, w3) \<longrightarrow>
                     (\<exists>rs'. internalResolve (Suc n) r tok (rs, w) = Some (Inr inst, (rs', w3))
                            \<and> cached_in r tok inst rs2 rs')))
         \<and> (\<forall>inst rs' w'.
               internalResolve (Suc n) r tok (rs, w) = Some (Inr inst, (rs', w')) \<longrightarrow>
               map_of (cache (rs' ! r)) tok = Some inst
               \<and> (truthy inst \<and> map_of (cache (rs ! r)) tok = Some inst \<and> rs' = rs \<and> w' = w
                  \<or> (\<forall>c. map_of (cache (rs ! r)) tok = Some c \<longrightarrow> \<not> truthy c)
                     \<and> (\<exists>args rs2 w2.
                           resolved_in_order n r (requires d) (rs, w) args (rs2, w2)
                           \<and> factory d args w2 = (Inr inst, w')
                           \<and> cached_in r tok inst rs2 rs')))
         \<and> (\<forall>res rs' w' a.
               internalResolve (Suc n) r tok (rs, w) = Some (res, (rs', w'))
               \<and> a < length rs \<and> \<not> in_chain rs r a \<longrightarrow> rs' ! a = rs ! a)
         \<and> (requires d = [] \<longrightarrow>
               (\<forall>res rs' w'.
                  internalResolve (Suc n) r tok (rs, w) = Some (res, (rs', w')) \<longrightarrow>
                  (\<forall>a < length rs. a \<noteq> r \<longrightarrow> rs' ! a = rs ! a)))"
proof (intro conjI allI impI)
  fix c assume "map_of (cache (rs ! r)) tok = Some c \<and> truthy c"
  then have "truthy (cache_get rs r tok)" "cache_get rs r tok = c"
    by (auto simp: cache_get_truthy_iff cache_get_Some)
  with d show "internalResolve (Suc n) r tok (rs, w) = Some (Inr c, (rs, w))"
    by (simp add: internalResolve_scoped del: internalResolve.simps)
next
  fix args rs2 w2 thrown w3
  assume h: "(\<forall>c. map_of (cache (rs ! r)) tok = Some c \<longrightarrow> \<not> truthy c)
               \<and> resolved_in_order n r (requires d) (rs, w) args (rs2, w2)"
    and f: "factory d args w2 = (Inl thrown, w3)"
  from d(2) have h1: "if lifetime d = Scoped then (rs, w) = (rs, w)
                      else parent_declines n r tok (rs, w) (rs, w)" by simp
  from h have h2: "lifetime d \<noteq> Transient \<longrightarrow>
                     (\<forall>c. map_of (cache (rs ! r)) tok = Some c \<longrightarrow> \<not> truthy c)"
    and h3: "resolved_in_order n r (requires d) (rs, w) args (rs2, w2)" by blast+
  from local_construction[OF d(1) v h1 h2 h3] f
  show "internalResolve (Suc n) r tok (rs, w) = Some (Inl (FactoryFailure thrown), (rs2, w3))"
    by blast
next
  fix args rs2 w2 inst w3
  assume h: "(\<forall>c. map_of (cache (rs ! r)) tok = Some c \<longrightarrow> \<not> truthy c)
               \<and> resolved_in_order n r (requires d) (rs, w) args (rs2, w2)"
    and f: "factory d args w2 = (Inr inst, w3)"
  from d(2) have h1: "if lifetime d = Scoped then (rs, w) = (rs, w)
                      else parent_declines n r tok (rs, w) (rs, w)" by simp
  from h have h2: "lifetime d \<noteq> Transient \<longrightarrow>
                     (\<forall>c. map_of (cache (rs ! r)) tok = Some c \<longrightarrow> \<not> truthy c)"
    and h3: "resolved_in_order n r (requires d) (rs, w) args (rs2, w2)" by blast+
  from local_construction[OF d(1) v h1 h2 h3] f
  have "\<exists>rs'. internalResolve (Suc n) r tok (rs, w) = Some (Inr inst, (rs', w3))
              \<and> (if lifetime d = Transient then rs' = rs2 else cached_in r tok inst rs2 rs')"
    by blast
  with d(2) show "\<exists>rs'. internalResolve (Suc n) r tok (rs, w) = Some (Inr inst, (rs', w3))
                        \<and> cached_in r tok inst rs2 rs'" by simp
next
  fix inst rs' w'
  assume run: "internalResolve (Suc n) r tok (rs, w) = Some (Inr inst, (rs', w'))"
  from instance_origin[OF d(1) v run] d(2)
  have o: "(rs' = rs \<and> w' = w \<and> map_of (cache (rs' ! r)) tok = Some inst \<and> truthy inst)
           \<or> (\<exists>args rs2 w2.
                 (\<forall>c. map_of (cache (rs ! r)) tok = Some c \<longrightarrow> \<not> truthy c)
                 \<and> resolved_in_order n r (requires d) (rs, w) args (rs2, w2)
                 \<and> factory d args w2 = (Inr inst, w')
                 \<and> cached_in r tok inst rs2 rs')"
    by auto
  then show "map_of (cache (rs' ! r)) tok = Some inst"
    by (auto simp: cached_in_unique)
  from o show "truthy inst \<and> map_of (cache (rs ! r)) tok = Some inst \<and> rs' = rs \<and> w' = w
                  \<or> (\<forall>c. map_of (cache (rs ! r)) tok = Some c \<longrightarrow> \<not> truthy c)
                     \<and> (\<exists>args rs2 w2.
                           resolved_in_order n r (requires d) (rs, w) args (rs2, w2)
                           \<and> factory d args w2 = (Inr inst, w')
                           \<and> cached_in r tok inst rs2 rs')"
    by blast
next
  fix res rs' w' a
  assume h: "internalResolve (Suc n) r tok (rs, w) = Some (res, (rs', w'))
               \<and> a < length rs \<and> \<not> in_chain rs r a"
  with v have "evolves r rs rs'"
    using resolve_evolves(1)[of "Suc n" r tok "(rs, w)" res "(rs', w')"] by simp
  with h show "rs' ! a = rs ! a" by (simp add: evolves_def)
next
  fix res rs' w' a
  assume nr: "requires d = []"
    and run: "internalResolve (Suc n) r tok (rs, w) = Some (res, (rs', w'))"
    and a: "a < length rs" "a \<noteq> r"
  show "rs' ! a = rs ! a"
  proof (cases "truthy (cache_get rs r tok)")
    case True
    with d run show ?thesis
      by (auto simp: internalResolve_scoped simp del: internalResolve.simps)
  next
    case False
    with d run nr a show ?thesis
      by (auto simp: internalResolve_scoped instantiate_no_requires cache_instance_def
          nth_cache_set
          simp del: internalResolve.simps instantiate.simps split: sum.splits prod.splits)
  qed
qed

theorem scoped_resolution_witness:
  "map_get (registrations (app_store [] [] [] ! 1)) 3 = Some (built [1] Scoped 3)
   \<and> resolved_in_order 2 1 [1] (app_store [] [] [], []) [JObj 0]
        (app_store [(1, JObj 0)] [] [], [(1, [])])
   \<and> internalResolve 3 1 3 (app_store [] [] [], [])
       = Some (Inr (JObj 1),
               (app_store [(1, JObj 0)] [(3, JObj 1)] [], [(1, []), (3, [JObj 0])]))
   \<and> cached_in 1 3 (JObj 1) (app_store [(1, JObj 0)] [] [])
        (app_store [(1, JObj 0)] [(3, JObj 1)] [])
   \<and> internalResolve 3 2 3 (app_store [(1, JObj 0)] [(3, JObj 1)] [], [(1, []), (3, [JObj 0])])
       = Some (Inr (JObj 2),
               (app_store [(1, JObj 0)] [(3, JObj 1)] [(3, JObj 2)],
                [(1, []), (3, [JObj 0]), (3, [JObj 0])]))
   \<and> internalResolve 3 1 3 (app_store [(1, JObj 0)] [(3, JObj 1)] [(3, JObj 2)],
                             [(1, []), (3, [JObj 0]), (3, [JObj 0])])
       = Some (Inr (JObj 1),
               (app_store [(1, JObj 0)] [(3, JObj 1)] [(3, JObj 2)],
                [(1, []), (3, [JObj 0]), (3, [JObj 0])]))
   \<and> map_get (registrations (app_store [] [] [] ! 0)) 7 = Some (built [] Scoped 7)
   \<and> map_get (registrations (app_store [] [] [] ! 1)) 7 = Some (built [] Scoped 7)
   \<and> internalResolve 1 0 7 (app_store [] [] [], [])
       = Some (Inr (JObj 0), (app_store [(7, JObj 0)] [] [], [(7, [])]))
   \<and> internalResolve 1 1 7 (app_store [(7, JObj 0)] [] [], [(7, [])])
       = Some (Inr (JObj 1), (app_store [(7, JObj 0)] [(7, JObj 1)] [], [(7, []), (7, [])]))"
proof -
  let ?d = "built [1] Scoped 3"
  let ?rs = "app_store [] [] []"
  let ?rs2 = "app_store [(1, JObj 0)] [] []"
  let ?rsa = "app_store [(1, JObj 0)] [(3, JObj 1)] []"
  let ?rsb = "app_store [(1, JObj 0)] [(3, JObj 1)] [(3, JObj 2)]"
  let ?w2 = "[(1::nat, [])] :: (token \<times> jsval list) list"
  let ?wa = "[(1::nat, []), (3, [JObj 0])]"
  let ?wb = "[(1::nat, []), (3, [JObj 0]), (3, [JObj 0])]"
  note ev = app_store_def app_root_def app_child_def built_def construct_def
    makeServiceDefinition_def map_get_def cache_get_def cache_set_def cache_instance_def
    numeral_eq_Suc
  have n: "Suc 2 = (3::nat)" by simp
  have l: "lifetime ?d = Scoped" by (simp add: built_def makeServiceDefinition_def)
  have d: "map_get (registrations (?rs ! 1)) 3 = Some ?d"
    by (simp add: app_store_def app_child_def map_get_def)
  have v: "valid_store ?rs" "(1::nat) < length ?rs"
    by (simp_all add: valid_store_def less_Suc_eq app_store_def)
  have db: "map_get (registrations (?rsb ! 1)) 3 = Some ?d"
    by (simp add: app_store_def app_child_def map_get_def)
  have vb: "valid_store ?rsb" "(1::nat) < length ?rsb"
    by (simp_all add: valid_store_def less_Suc_eq app_store_def)
  have r1: "resolve 2 1 1 (?rs, []) = Some (Inr (JObj 0), (?rs2, ?w2))"
    by (simp add: ev)
  then have ord: "resolved_in_order 2 1 (requires ?d) (?rs, []) [JObj 0] (?rs2, ?w2)"
    by (simp add: built_def makeServiceDefinition_def del: resolve.simps)
  have unc: "\<forall>c. map_of (cache (?rs ! 1)) 3 = Some c \<longrightarrow> \<not> truthy c"
    by (simp add: app_store_def)
  have f: "factory ?d [JObj 0] ?w2 = (Inr (JObj 1), ?wa)"
    by (simp add: built_def makeServiceDefinition_def construct_def)
  have runa: "internalResolve 3 1 3 (?rs, []) = Some (Inr (JObj 1), (?rsa, ?wa))"
    by (simp add: ev)
  have runb: "internalResolve 3 2 3 (?rsa, ?wa) = Some (Inr (JObj 2), (?rsb, ?wb))"
    by (simp add: ev)
  note built = scoped_resolution [OF d l v, of 2 "[]", THEN conjunct2, THEN conjunct1,
      THEN spec, THEN spec, THEN spec, THEN mp, OF conjI [OF unc ord], THEN conjunct2,
      THEN spec, THEN spec, THEN mp, OF f]
  then have "\<exists>rs'. internalResolve (Suc 2) 1 3 (?rs, []) = Some (Inr (JObj 1), (rs', ?wa))
              \<and> cached_in 1 3 (JObj 1) ?rs2 rs'" .
  then obtain rs' where a: "internalResolve (Suc 2) 1 3 (?rs, []) = Some (Inr (JObj 1), (rs', ?wa))"
    and c: "cached_in 1 3 (JObj 1) ?rs2 rs'" by blast
  from a have "internalResolve 3 1 3 (?rs, []) = Some (Inr (JObj 1), (rs', ?wa))"
    by (simp only: n)
  with runa have "rs' = ?rsa" by simp
  with c have c': "cached_in 1 3 (JObj 1) ?rs2 ?rsa" by simp
  have hit: "map_of (cache (?rsb ! 1)) 3 = Some (JObj 1) \<and> truthy (JObj 1)"
    by (simp add: app_store_def)
  note cached = scoped_resolution [OF db l vb, of 2 ?wb, THEN conjunct1, THEN spec, THEN mp,
      OF hit]
  then have "internalResolve (Suc 2) 1 3 (?rsb, ?wb) = Some (Inr (JObj 1), (?rsb, ?wb))" .
  then have runc: "internalResolve 3 1 3 (?rsb, ?wb) = Some (Inr (JObj 1), (?rsb, ?wb))"
    by (simp only: n)
  from ord have ord': "resolved_in_order 2 1 [1] (?rs, []) [JObj 0] (?rs2, ?w2)"
    by (simp only: built_def makeServiceDefinition_def ServiceDefinition.simps)
  have p7: "map_get (registrations (?rs ! 0)) 7 = Some (built [] Scoped 7)"
    "map_get (registrations (?rs ! 1)) 7 = Some (built [] Scoped 7)"
    by (simp_all add: app_store_def app_root_def app_child_def map_get_def)
  have run7: "internalResolve 1 0 7 (?rs, []) = Some (Inr (JObj 0), (app_store [(7, JObj 0)] [] [], [(7, [])]))"
    "internalResolve 1 1 7 (app_store [(7, JObj 0)] [] [], [(7, [])])
       = Some (Inr (JObj 1), (app_store [(7, JObj 0)] [(7, JObj 1)] [], [(7, []), (7, [])]))"
    by (simp_all add: ev)
  from d ord' runa c' runb runc p7 run7 show ?thesis by blast
qed

text \<open>
  C6. For a token registered as transient, \<open>InternalResolve\<close> first asks the parent and
  returns a truthy answer as it is. Otherwise, where there is no parent or the parent has
  answered with a falsy value, the tokens of \<open>requires\<close> are resolved in order, the factory is
  applied to their values, and its instance is returned: the store is left exactly as the
  resolution of the dependencies has left it, the new instance written nowhere. Every
  instance returned has one of these two origins. No resolution, of any token on any
  resolver, changes the entry of the cache of this resolver at the transient token; and
  with no parent and no dependencies the store as a whole is unchanged and the value is
  what the factory returns in the current world, anew on every call. Caches do change
  when a dependency of the transient token is scoped or singleton.
\<close>

theorem transient_resolution:
  assumes d: "map_get (registrations (rs ! r)) tok = Some d" "lifetime d = Transient"
    and v: "valid_store rs" "r < length rs"
  shows "(\<forall>p u s1. parent (rs ! r) = Some p
                    \<and> internalResolve n p tok (rs, w) = Some (Inr u, s1) \<and> truthy u \<longrightarrow>
            internalResolve (Suc n) r tok (rs, w) = Some (Inr u, s1))
         \<and> (\<forall>rs1 w1 args rs2 w2.
               parent_declines n r tok (rs, w) (rs1, w1)
               \<and> resolved_in_order n r (requires d) (rs1, w1) args (rs2, w2) \<longrightarrow>
               internalResolve (Suc n) r tok (rs, w) =
                 Some (case factory d args w2 of
                         (Inl thrown, w3) \<Rightarrow> (Inl (FactoryFailure thrown), (rs2, w3))
                       | (Inr inst, w3) \<Rightarrow> (Inr inst, (rs2, w3))))
         \<and> (\<forall>inst rs' w'.
               internalResolve (Suc n) r tok (rs, w) = Some (Inr inst, (rs', w')) \<longrightarrow>
               (\<exists>p. parent (rs ! r) = Some p
                     \<and> internalResolve n p tok (rs, w) = Some (Inr inst, (rs', w'))
                     \<and> truthy inst)
               \<or> (\<exists>rs1 w1 args w2.
                     parent_declines n r tok (rs, w) (rs1, w1)
                     \<and> resolved_in_order n r (requires d) (rs1, w1) args (rs', w2)
                     \<and> factory d args w2 = (Inr inst, w')))
         \<and> (\<forall>m a k res rs' w'.
               a < length rs \<and> resolve m a k (rs, w) = Some (res, (rs', w')) \<longrightarrow>
               map_of (cache (rs' ! r)) tok = map_of (cache (rs ! r)) tok)
         \<and> (parent (rs ! r) = None \<and> requires d = [] \<longrightarrow>
               internalResolve (Suc n) r tok (rs, w) =
                 Some (case factory d [] w of
                         (Inl thrown, w3) \<Rightarrow> (Inl (FactoryFailure thrown), (rs, w3))
                       | (Inr inst, w3) \<Rightarrow> (Inr inst, (rs, w3))))"
proof (intro conjI allI impI)
  fix p u s1
  assume "parent (rs ! r) = Some p
            \<and> internalResolve n p tok (rs, w) = Some (Inr u, s1) \<and> truthy u"
  then have "probe_parent n r tok (rs, w) = Some (Inr u, s1)" "truthy u"
    by (simp_all add: probe_parent_def del: internalResolve.simps)
  with d show "internalResolve (Suc n) r tok (rs, w) = Some (Inr u, s1)"
    by (cases s1) (simp add: internalResolve_transient del: internalResolve.simps)
next
  fix rs1 w1 args rs2 w2
  assume h: "parent_declines n r tok (rs, w) (rs1, w1)
               \<and> resolved_in_order n r (requires d) (rs1, w1) args (rs2, w2)"
  then obtain u where "probe_parent n r tok (rs, w) = Some (Inr u, (rs1, w1))" "\<not> truthy u"
    by (auto simp: probe_parent_declines[symmetric])
  with d have "internalResolve (Suc n) r tok (rs, w) = instantiate n r d (rs1, w1)"
    by (simp add: internalResolve_transient del: internalResolve.simps instantiate.simps)
  also from h have "\<dots> = Some (case factory d args w2 of
                         (Inl thrown, w3) \<Rightarrow> (Inl (FactoryFailure thrown), (rs2, w3))
                       | (Inr inst, w3) \<Rightarrow> (Inr inst, (rs2, w3)))"
    by (intro instantiate_resolved) simp
  finally show "internalResolve (Suc n) r tok (rs, w) =
                 Some (case factory d args w2 of
                         (Inl thrown, w3) \<Rightarrow> (Inl (FactoryFailure thrown), (rs2, w3))
                       | (Inr inst, w3) \<Rightarrow> (Inr inst, (rs2, w3)))" .
next
  fix inst rs' w'
  assume run: "internalResolve (Suc n) r tok (rs, w) = Some (Inr inst, (rs', w'))"
  from instance_origin[OF d(1) v run] d(2)
  show "(\<exists>p. parent (rs ! r) = Some p
                     \<and> internalResolve n p tok (rs, w) = Some (Inr inst, (rs', w'))
                     \<and> truthy inst)
               \<or> (\<exists>rs1 w1 args w2.
                     parent_declines n r tok (rs, w) (rs1, w1)
                     \<and> resolved_in_order n r (requires d) (rs1, w1) args (rs', w2)
                     \<and> factory d args w2 = (Inr inst, w'))"
    by (simp del: internalResolve.simps)
next
  fix m a k res rs' w'
  assume a: "a < length rs \<and> resolve m a k (rs, w) = Some (res, (rs', w'))"
  with v have "evolves a rs rs'"
    using resolve_evolves(2)[of m a k "(rs, w)" res "(rs', w')"] by simp
  moreover from d have "never_cached (rs ! r) tok" by (simp add: never_cached_def)
  ultimately show "map_of (cache (rs' ! r)) tok = map_of (cache (rs ! r)) tok"
    using v by (simp add: evolves_def map_get_def)
next
  assume "parent (rs ! r) = None \<and> requires d = []"
  with d show "internalResolve (Suc n) r tok (rs, w) =
                 Some (case factory d [] w of
                         (Inl thrown, w3) \<Rightarrow> (Inl (FactoryFailure thrown), (rs, w3))
                       | (Inr inst, w3) \<Rightarrow> (Inr inst, (rs, w3)))"
    by (simp add: internalResolve_transient probe_parent_def instantiate_no_requires
        del: internalResolve.simps instantiate.simps split: prod.splits sum.splits)
qed

theorem transient_resolution_witness:
  "map_get (registrations (app_store [] [] [] ! 1)) 4 = Some (built [1, 2] Transient 4)
   \<and> parent_declines 2 1 4 (app_store [] [] [], []) (app_store [] [] [], [])
   \<and> resolved_in_order 2 1 [1, 2] (app_store [] [] [], []) [JObj 0, JObj 1]
        (app_store [(1, JObj 0)] [(2, JObj 1)] [], [(1, []), (2, [])])
   \<and> internalResolve 3 1 4 (app_store [] [] [], [])
       = Some (Inr (JObj 2),
               (app_store [(1, JObj 0)] [(2, JObj 1)] [],
                [(1, []), (2, []), (4, [JObj 0, JObj 1])]))
   \<and> internalResolve 3 1 4 (app_store [(1, JObj 0)] [(2, JObj 1)] [],
                             [(1, []), (2, []), (4, [JObj 0, JObj 1])])
       = Some (Inr (JObj 3),
               (app_store [(1, JObj 0)] [(2, JObj 1)] [],
                [(1, []), (2, []), (4, [JObj 0, JObj 1]), (4, [JObj 0, JObj 1])]))
   \<and> map_get (registrations (app_store [] [] [] ! 1)) 5 = Some (built [] Transient 5)
   \<and> internalResolve 3 1 5 (app_store [] [] [], [])
       = Some (Inr (JObj 0), (app_store [(5, JObj 0)] [] [], [(5, [])]))
   \<and> internalResolve 3 1 5 (app_store [(5, JObj 0)] [] [], [(5, [])])
       = Some (Inr (JObj 0), (app_store [(5, JObj 0)] [] [], [(5, [])]))"
proof -
  let ?d = "built [1, 2] Transient 4"
  let ?e = "built [] Transient 5"
  let ?rs = "app_store [] [] []"
  let ?rs2 = "app_store [(1, JObj 0)] [(2, JObj 1)] []"
  let ?rsp = "app_store [(5, JObj 0)] [] []"
  let ?w2 = "[(1::nat, []), (2, [])] :: (token \<times> jsval list) list"
  let ?wa = "[(1::nat, []), (2, []), (4, [JObj 0, JObj 1])]"
  let ?wb = "[(1::nat, []), (2, []), (4, [JObj 0, JObj 1]), (4, [JObj 0, JObj 1])]"
  let ?wp = "[(5::nat, [])] :: (token \<times> jsval list) list"
  note ev = app_store_def app_root_def app_child_def built_def construct_def
    makeServiceDefinition_def map_get_def cache_get_def cache_set_def cache_instance_def
    numeral_eq_Suc
  have n: "Suc 2 = (3::nat)" by simp
  have l: "lifetime ?d = Transient" "lifetime ?e = Transient"
    by (simp_all add: built_def makeServiceDefinition_def)
  have d: "map_get (registrations (?rs ! 1)) 4 = Some ?d"
    by (simp add: app_store_def app_child_def map_get_def)
  have e: "map_get (registrations (?rs ! 1)) 5 = Some ?e"
    by (simp add: app_store_def app_child_def map_get_def)
  have v: "valid_store ?rs" "(1::nat) < length ?rs"
    by (simp_all add: valid_store_def less_Suc_eq app_store_def)
  have pd: "parent_declines 2 1 4 (?rs, []) (?rs, [])"
    by (simp add: parent_declines_def ev)
  have r1: "resolve 2 1 1 (?rs, []) = Some (Inr (JObj 0), (app_store [(1, JObj 0)] [] [], [(1, [])]))"
    by (simp add: ev)
  have r2: "resolve 2 1 2 (app_store [(1, JObj 0)] [] [], [(1, [])]) = Some (Inr (JObj 1), (?rs2, ?w2))"
    by (simp add: ev)
  from r1 r2 have ord: "resolved_in_order 2 1 (requires ?d) (?rs, []) [JObj 0, JObj 1] (?rs2, ?w2)"
    by (simp add: built_def makeServiceDefinition_def del: resolve.simps)
  have f: "factory ?d [JObj 0, JObj 1] ?w2 = (Inr (JObj 2), ?wa)"
    by (simp add: built_def makeServiceDefinition_def construct_def)
  from transient_resolution [OF d l(1) v, of 2 "[]"] pd ord
  have "internalResolve (Suc 2) 1 4 (?rs, []) =
          Some (case factory ?d [JObj 0, JObj 1] ?w2 of
                  (Inl thrown, w3) \<Rightarrow> (Inl (FactoryFailure thrown), (?rs2, w3))
                | (Inr inst, w3) \<Rightarrow> (Inr inst, (?rs2, w3)))"
    by blast
  then have runa: "internalResolve 3 1 4 (?rs, []) = Some (Inr (JObj 2), (?rs2, ?wa))"
    by (simp only: n f prod.case sum.case)
  have runb: "internalResolve 3 1 4 (?rs2, ?wa) = Some (Inr (JObj 3), (?rs2, ?wb))"
    by (simp add: ev)
  have par: "parent (?rs ! 1) = Some 0
             \<and> internalResolve 2 0 5 (?rs, []) = Some (Inr (JObj 0), (?rsp, ?wp))
             \<and> truthy (JObj 0)"
    by (simp add: ev)
  from transient_resolution [OF e l(2) v, of 2 "[]"] par
  have "internalResolve (Suc 2) 1 5 (?rs, []) = Some (Inr (JObj 0), (?rsp, ?wp))"
    by blast
  then have runp: "internalResolve 3 1 5 (?rs, []) = Some (Inr (JObj 0), (?rsp, ?wp))"
    by (simp only: n)
  have runq: "internalResolve 3 1 5 (?rsp, ?wp) = Some (Inr (JObj 0), (?rsp, ?wp))"
    by (simp add: ev)
  from ord have ord': "resolved_in_order 2 1 [1, 2] (?rs, []) [JObj 0, JObj 1] (?rs2, ?w2)"
    by (simp only: built_def makeServiceDefinition_def ServiceDefinition.simps)
  from d pd ord' runa runb e runp runq show ?thesis by blast
qed

theorem transient_dependency_cached_counterexample:
  "map_get (registrations ([root_of [(0, svc [1] Transient), (1, svc [] Singleton)]] ! 0)) 0
     = Some (svc [1] Transient)
   \<and> lifetime (svc [1] Transient) = Transient
   \<and> cache ([root_of [(0, svc [1] Transient), (1, svc [] Singleton)]] ! 0) = []
   \<and> resolve 2 0 0 ([root_of [(0, svc [1] Transient), (1, svc [] Singleton)]], 0)
       = Some (Inr (JObj 1),
               ([\<lparr>registrations = [(0, svc [1] Transient), (1, svc [] Singleton)],
                  parent = None, cache = [(1, JObj 0)]\<rparr>], 2))"
  by (simp add: root_of_def svc_def alloc_def makeServiceDefinition_def map_get_def cache_get_def
      cache_set_def cache_instance_def numeral_eq_Suc)

section \<open>Truthiness\<close>



section \<open>Correctness of the cycle detector\<close>

lemma hasCycle_False:
  "hasCycle g n s = (False, s') \<Longrightarrow> snd s' = snd s \<and> fst s \<subseteq> fst s' \<and> n \<in> fst s'"
  "hasCycle_loop g ns s = (False, s') \<Longrightarrow> snd s' = snd s \<and> fst s \<subseteq> fst s' \<and> set ns \<subseteq> fst s'"
proof (induction g n s and g ns s arbitrary: s' and s' rule: hasCycle_hasCycle_loop.induct)
  case (1 graph node visited recStack)
  show ?case
  proof (cases "node \<in> recStack \<or> node \<in> visited")
    case True
    with "1.prems" show ?thesis by (auto split: if_splits)
  next
    case False
    with "1.prems" obtain s1 where
      l: "hasCycle_loop graph (neighbors graph node) (insert node visited, insert node recStack)
            = (False, s1)"
      and s': "s' = (fst s1, snd s1 - {node})"
      by (auto split: prod.splits bool.splits)
    from "1.IH"[OF _ _ l] False
    have "snd s1 = insert node recStack \<and> insert node visited \<subseteq> fst s1" by simp
    with s' False show ?thesis by auto
  qed
next
  case (2 graph s)
  then show ?case by simp
next
  case (3 graph neighbor rest s)
  from "3.prems" obtain s1 where
    h: "hasCycle graph neighbor s = (False, s1)" and l: "hasCycle_loop graph rest s1 = (False, s')"
    by (auto split: prod.splits bool.splits)
  from "3.IH"(1)[OF h] "3.IH"(2)[OF h[symmetric] _ l] show ?case by auto
qed

lemma closed_reachable:
  assumes "(b, x) \<in> E\<^sup>*" "b \<in> B" "\<forall>b \<in> B. \<forall>c. (b, c) \<in> E \<longrightarrow> c \<in> B"
  shows "x \<in> B"
  using assms by (induction rule: rtrancl_induct) auto

lemma black_ok_finish:
  assumes ok: "black_ok g (V, insert n R)"
    and nb: "set (neighbors g n) \<subseteq> V - insert n R"
    and n: "n \<in> V" "n \<notin> R"
  shows "black_ok g (V, insert n R - {n})"
proof -
  let ?E = "edges g"
  let ?B = "V - insert n R"
  from n have R: "insert n R - {n} = R" by auto
  from n have B': "V - R = insert n ?B" by auto
  from ok have closed: "\<forall>b \<in> ?B. \<forall>c. (b, c) \<in> ?E \<longrightarrow> c \<in> ?B"
    unfolding black_ok_def fst_conv snd_conv by (rule conjunct1)
  from ok have acyc: "\<forall>b \<in> ?B. (b, b) \<notin> ?E\<^sup>+"
    unfolding black_ok_def fst_conv snd_conv by (rule conjunct2)
  have succ_n: "\<And>c. (n, c) \<in> ?E \<Longrightarrow> c \<in> ?B"
    using nb by (auto simp: edges_def)
  have "(n, n) \<notin> ?E\<^sup>+"
  proof
    assume "(n, n) \<in> ?E\<^sup>+"
    from tranclD[OF this] obtain c where c: "(n, c) \<in> ?E" "(c, n) \<in> ?E\<^sup>*"
      by blast
    from c(1) have "c \<in> ?B" by (rule succ_n)
    from c(2) this closed have "n \<in> ?B" by (rule closed_reachable)
    then show False by simp
  qed
  with acyc have acyc': "\<forall>b \<in> insert n ?B. (b, b) \<notin> ?E\<^sup>+" by simp
  from closed succ_n have closed': "\<forall>b \<in> insert n ?B. \<forall>c. (b, c) \<in> ?E \<longrightarrow> c \<in> insert n ?B"
    by blast
  from acyc' closed' show ?thesis
    unfolding black_ok_def R fst_conv snd_conv B' by (rule conjI[rotated])
qed

lemma hasCycle_False_black:
  "hasCycle g n s = (False, s') \<Longrightarrow> black_ok g s \<Longrightarrow> black_ok g s' \<and> n \<in> fst s' - snd s'"
  "hasCycle_loop g ns s = (False, s') \<Longrightarrow> black_ok g s
     \<Longrightarrow> black_ok g s' \<and> set ns \<subseteq> fst s' - snd s'"
proof (induction g n s and g ns s arbitrary: s' and s' rule: hasCycle_hasCycle_loop.induct)
  case (1 graph node visited recStack)
  show ?case
  proof (cases "node \<in> recStack \<or> node \<in> visited")
    case True
    with "1.prems" show ?thesis by (auto split: if_splits)
  next
    case False
    with "1.prems"(1) obtain s1 where
      l: "hasCycle_loop graph (neighbors graph node) (insert node visited, insert node recStack)
            = (False, s1)"
      and s': "s' = (fst s1, snd s1 - {node})"
      by (auto split: prod.splits bool.splits)
    from False have "insert node visited - insert node recStack = visited - recStack" by auto
    with "1.prems"(2) have "black_ok graph (insert node visited, insert node recStack)"
      unfolding black_ok_def fst_conv snd_conv by (simp only:)
    with "1.IH"[OF _ _ l] False
    have ok1: "black_ok graph s1" and nb: "set (neighbors graph node) \<subseteq> fst s1 - snd s1"
      by auto
    from hasCycle_False(2)[OF l]
    have r1: "snd s1 = insert node recStack" and v1: "node \<in> fst s1" by auto
    from ok1 r1 have "black_ok graph (fst s1, insert node recStack)"
      by (metis prod.collapse)
    from black_ok_finish[OF this] nb r1 v1 False
    have "black_ok graph (fst s1, insert node recStack - {node})" by simp
    with s' r1 v1 False show ?thesis by auto
  qed
next
  case (2 graph s)
  then show ?case by simp
next
  case (3 graph neighbor rest s)
  from "3.prems"(1) obtain s1 where
    h: "hasCycle graph neighbor s = (False, s1)" and l: "hasCycle_loop graph rest s1 = (False, s')"
    by (auto split: prod.splits bool.splits)
  from "3.IH"(1)[OF h "3.prems"(2)] have ok1: "black_ok graph s1" and n1: "neighbor \<in> fst s1 - snd s1"
    by auto
  from "3.IH"(2)[OF h[symmetric] _ l ok1]
  have ok': "black_ok graph s'" and r: "set rest \<subseteq> fst s' - snd s'" by auto
  from hasCycle_False(2)[OF l] n1 have "neighbor \<in> fst s' - snd s'" by auto
  with ok' r show ?case by simp
qed

lemma hasCycle_True:
  "hasCycle g n s = (True, s') \<Longrightarrow> \<forall>x \<in> snd s. (x, n) \<in> (edges g)\<^sup>+
     \<Longrightarrow> \<exists>c. (c, c) \<in> (edges g)\<^sup>+"
  "hasCycle_loop g ns s = (True, s') \<Longrightarrow> \<forall>x \<in> snd s. \<forall>m \<in> set ns. (x, m) \<in> (edges g)\<^sup>+
     \<Longrightarrow> \<exists>c. (c, c) \<in> (edges g)\<^sup>+"
proof (induction g n s and g ns s arbitrary: s' and s' rule: hasCycle_hasCycle_loop.induct)
  case (1 graph node visited recStack)
  show ?case
  proof (cases "node \<in> recStack")
    case True
    with "1.prems"(2) show ?thesis by auto
  next
    case False
    with "1.prems"(1) have nv: "node \<notin> visited" by (auto split: if_splits)
    with False "1.prems"(1) have
      l: "hasCycle_loop graph (neighbors graph node) (insert node visited, insert node recStack)
            = (True, s')"
      by (auto split: prod.splits bool.splits)
    have "\<forall>x \<in> snd (insert node visited, insert node recStack).
            \<forall>m \<in> set (neighbors graph node). (x, m) \<in> (edges graph)\<^sup>+"
    proof (intro ballI)
      fix x m assume x: "x \<in> snd (insert node visited, insert node recStack)"
        and m: "m \<in> set (neighbors graph node)"
      from m have e: "(node, m) \<in> edges graph" by (simp add: edges_def)
      show "(x, m) \<in> (edges graph)\<^sup>+"
      proof (cases "x = node")
        case True
        with e show ?thesis by auto
      next
        case False
        with x "1.prems"(2) have "(x, node) \<in> (edges graph)\<^sup>+" by simp
        with e show ?thesis by (blast intro: trancl_into_trancl)
      qed
    qed
    from "1.IH"[OF False nv l this] show ?thesis .
  qed
next
  case (2 graph s)
  then show ?case by simp
next
  case (3 graph neighbor rest s)
  obtain b s1 where Pair: "hasCycle graph neighbor s = (b, s1)" by (metis surj_pair)
  show ?case
  proof -
    show ?thesis
    proof (cases b)
      case True
      with Pair "3.IH"(1)[of s1] "3.prems"(2) show ?thesis by simp
    next
      case False
      with Pair "3.prems"(1) have l: "hasCycle_loop graph rest s1 = (True, s')" by simp
      from hasCycle_False(1)[of graph neighbor s s1] Pair False have "snd s1 = snd s" by simp
      with "3.prems"(2) have "\<forall>x \<in> snd s1. \<forall>m \<in> set rest. (x, m) \<in> (edges graph)\<^sup>+" by simp
      from "3.IH"(2)[OF Pair[symmetric] _ l this] False show ?thesis by simp
    qed
  qed
qed

lemma isCyclic_loop_True:
  "isCyclic_loop g nodes s \<Longrightarrow> snd s = {} \<Longrightarrow> \<exists>c. (c, c) \<in> (edges g)\<^sup>+"
proof (induction nodes arbitrary: s)
  case Nil
  then show ?case by simp
next
  case (Cons node rest)
  obtain b s1 where h: "hasCycle g node s = (b, s1)" by (metis surj_pair)
  show ?case
  proof (cases b)
    case True
    with h Cons.prems(2) hasCycle_True(1)[of g node s s1] show ?thesis by simp
  next
    case False
    with h Cons.prems(1) have "isCyclic_loop g rest s1" by simp
    moreover from hasCycle_False(1)[of g node s s1] h False Cons.prems(2) have "snd s1 = {}"
      by simp
    ultimately show ?thesis by (rule Cons.IH)
  qed
qed

lemma isCyclic_loop_False:
  "\<not> isCyclic_loop g nodes s \<Longrightarrow> snd s = {} \<Longrightarrow> black_ok g s
     \<Longrightarrow> \<exists>s'. black_ok g s' \<and> snd s' = {} \<and> fst s \<subseteq> fst s' \<and> set nodes \<subseteq> fst s'"
proof (induction nodes arbitrary: s)
  case Nil
  then show ?case by (intro exI[of _ s]) simp
next
  case (Cons node rest)
  obtain b s1 where h: "hasCycle g node s = (b, s1)" by (metis surj_pair)
  from h Cons.prems(1) have nb: "\<not> b" by (cases b) auto
  with h have h': "hasCycle g node s = (False, s1)" by simp
  with Cons.prems(1) have l: "\<not> isCyclic_loop g rest s1" by simp
  from hasCycle_False(1)[OF h'] Cons.prems(2)
  have e1: "snd s1 = {}" and n1: "node \<in> fst s1" and m1: "fst s \<subseteq> fst s1"
    by auto
  from hasCycle_False_black(1)[OF h' Cons.prems(3)] have ok1: "black_ok g s1" by simp
  from Cons.IH[OF l e1 ok1] obtain s' where
    s': "black_ok g s'" "snd s' = {}" "fst s1 \<subseteq> fst s'" "set rest \<subseteq> fst s'" by blast
  with n1 m1 have "fst s \<subseteq> fst s' \<and> set (node # rest) \<subseteq> fst s'" by auto
  with s'(1,2) show ?case by blast
qed

lemma edge_source_is_key:
  assumes "(a, b) \<in> edges g"
  shows "a \<in> set (map_keys g)"
proof -
  from assms have "neighbors g a \<noteq> []" by (auto simp: edges_def)
  then have "map_get g a \<noteq> None" by (auto simp: neighbors_def split: option.splits)
  then show ?thesis by (simp add: map_get_None_iff)
qed

lemma isCyclic_iff: "isCyclic g \<longleftrightarrow> (\<exists>c. (c, c) \<in> (edges g)\<^sup>+)"
proof
  assume "isCyclic g"
  then show "\<exists>c. (c, c) \<in> (edges g)\<^sup>+"
    unfolding isCyclic_def using isCyclic_loop_True[of g "map_keys g" "({}, {})"] by simp
next
  assume cyc: "\<exists>c. (c, c) \<in> (edges g)\<^sup>+"
  show "isCyclic g"
  proof (rule ccontr)
    assume "\<not> isCyclic g"
    then have n: "\<not> isCyclic_loop g (map_keys g) ({}, {})" by (simp add: isCyclic_def)
    have "black_ok g ({}, {})" unfolding black_ok_def fst_conv snd_conv by blast
    from isCyclic_loop_False[OF n _ this] obtain s' where
      s': "black_ok g s'" "snd s' = {}" "set (map_keys g) \<subseteq> fst s'" by auto
    from cyc obtain c where c: "(c, c) \<in> (edges g)\<^sup>+" by blast
    from tranclD[OF c] obtain z where "(c, z) \<in> edges g" by blast
    then have "c \<in> set (map_keys g)" by (rule edge_source_is_key)
    with s'(2,3) have "c \<in> fst s' - snd s'" by auto
    with s'(1) have "(c, c) \<notin> (edges g)\<^sup>+" unfolding black_ok_def by blast
    with c show False by contradiction
  qed
qed

lemma map_get_graphFromServiceMap_loop:
  "distinct (map_keys m) \<Longrightarrow>
     map_get (graphFromServiceMap_loop m g) k =
       (case map_get m k of Some d \<Rightarrow> Some (requires d) | None \<Rightarrow> map_get g k)"
proof (induction m arbitrary: g)
  case Nil
  then show ?case by (simp add: map_get_def)
next
  case (Cons e m)
  obtain key v where e: "e = (key, v)" by (cases e)
  from Cons.prems e have dm: "distinct (map_keys m)" and nk: "key \<notin> set (map_keys m)"
    by (auto simp: map_keys_def)
  from nk have "map_get m key = None" by (simp add: map_get_None_iff)
  with Cons.IH[OF dm, of "map_set key (requires v) g"] e show ?case
    by (auto simp: map_get_map_set split: option.splits) (auto simp: map_get_def)
qed

lemma edges_graphFromServiceMap:
  assumes "distinct (map_keys m)"
  shows "edges (graphFromServiceMap m) = dep_edges m"
proof -
  have "neighbors (graphFromServiceMap m) a
          = (case map_get m a of None \<Rightarrow> [] | Some d \<Rightarrow> requires d)" for a
    using map_get_graphFromServiceMap_loop[OF assms, of "[]" a]
    by (auto simp: neighbors_def graphFromServiceMap_def map_get_def split: option.splits)
  then have "b \<in> set (neighbors (graphFromServiceMap m) a)
          \<longleftrightarrow> (\<exists>d. map_get m a = Some d \<and> b \<in> set (requires d))" for a b
    by (cases "map_get m a") simp_all
  then show ?thesis
    by (simp add: edges_def dep_edges_def)
qed

lemma checkForCycles_iff:
  assumes "distinct (map_keys m)"
  shows "checkForCycles m = (if dependency_cycle m then Inl CyclicDependency else Inr ())"
  using assms
  by (simp add: checkForCycles_def isCyclic_iff edges_graphFromServiceMap dependency_cycle_def)

lemma cache_instance_Inl:
  "cache_instance r tok out = Some (Inl e, s') \<Longrightarrow> out = Some (Inl e, s')"
  by (auto simp: cache_instance_def split: option.splits sum.splits prod.splits)

lemma resolve_errors:
  "internalResolve n r tok s = Some (Inl e, s') \<Longrightarrow> e = MissingRegistration \<or> (\<exists>v. e = FactoryFailure v)"
  "resolve n r tok s = Some (Inl e, s') \<Longrightarrow> e = MissingRegistration \<or> (\<exists>v. e = FactoryFailure v)"
  "resolveAll n r toks s = Some (Inl e, s') \<Longrightarrow> e = MissingRegistration \<or> (\<exists>v. e = FactoryFailure v)"
  "instantiate n r d s = Some (Inl e, s') \<Longrightarrow> e = MissingRegistration \<or> (\<exists>v. e = FactoryFailure v)"
proof (induction n r tok s and n r tok s and n r toks s and n r d s
    arbitrary: e s' and e s' and e s' and e s'
    rule: internalResolve_resolve_resolveAll_instantiate.induct)
  case (1 r tok s)
  then show ?case by simp
next
  case (2 n r tok rs w)
  note run = "2.prems"
  show ?case
  proof (cases "map_get (registrations (rs ! r)) tok")
    case None
    with run show ?thesis by simp
  next
    case (Some d)
    have run': "internalResolve (Suc n) r tok (rs, w) = Some (Inl e, s')" by (rule run)
    have probe_err: "e1 = MissingRegistration \<or> (\<exists>v. e1 = FactoryFailure v)"
      if "probe_parent n r tok (rs, w) = Some (Inl e1, s1)" "lifetime d \<noteq> Scoped" for e1 s1
    proof (cases "parent (rs ! r)")
      case None
      with that show ?thesis by (simp add: probe_parent_def)
    next
      case p: (Some p)
      with that have "internalResolve n p tok (rs, w) = Some (Inl e1, s1)"
        by (simp add: probe_parent_def)
      with "2.IH"(1)[OF Some _ p] "2.IH"(3)[OF Some _ p] that(2) show ?thesis
        by (cases "lifetime d") auto
    qed
    show ?thesis
    proof (cases "lifetime d")
      case Scoped
      with run' Some have nt: "\<not> truthy (cache_get rs r tok)"
        and "cache_instance r tok (instantiate n r d (rs, w)) = Some (Inl e, s')"
        by (auto simp: internalResolve_scoped simp del: internalResolve.simps instantiate.simps
            split: if_splits)
      then have "instantiate n r d (rs, w) = Some (Inl e, s')" by (simp add: cache_instance_Inl)
      with "2.IH"(5)[OF Some Scoped nt] show ?thesis by simp
    next
      case Singleton
      from run' Some Singleton obtain res1 rs1 w1 where
        pr: "probe_parent n r tok (rs, w) = Some (res1, (rs1, w1))"
        by (auto simp: internalResolve_singleton simp del: internalResolve.simps instantiate.simps
            split: option.splits)
      show ?thesis
      proof (cases res1)
        case (Inl e1)
        with run' Some Singleton pr have "e = e1"
          by (simp add: internalResolve_singleton del: internalResolve.simps instantiate.simps)
        with probe_err[of e1 "(rs1, w1)"] pr Inl Singleton show ?thesis by simp
      next
        case (Inr u)
        with run' Some Singleton pr have nt: "\<not> truthy u" "\<not> truthy (cache_get rs1 r tok)"
          and "cache_instance r tok (instantiate n r d (rs1, w1)) = Some (Inl e, s')"
          by (auto simp: internalResolve_singleton
              simp del: internalResolve.simps instantiate.simps split: if_splits)
        then have "instantiate n r d (rs1, w1) = Some (Inl e, s')"
          by (simp add: cache_instance_Inl)
        with "2.IH"(2)[OF Some Singleton pr[unfolded probe_parent_def fst_conv] refl Inr refl nt]
        show ?thesis by simp
      qed
    next
      case Transient
      from run' Some Transient obtain res1 rs1 w1 where
        pr: "probe_parent n r tok (rs, w) = Some (res1, (rs1, w1))"
        by (auto simp: internalResolve_transient simp del: internalResolve.simps instantiate.simps
            split: option.splits)
      show ?thesis
      proof (cases res1)
        case (Inl e1)
        with run' Some Transient pr have "e = e1"
          by (simp add: internalResolve_transient del: internalResolve.simps instantiate.simps)
        with probe_err[of e1 "(rs1, w1)"] pr Inl Transient show ?thesis by simp
      next
        case (Inr u)
        with run' Some Transient pr have nt: "\<not> truthy u"
          and "instantiate n r d (rs1, w1) = Some (Inl e, s')"
          by (auto simp: internalResolve_transient
              simp del: internalResolve.simps instantiate.simps split: if_splits)
        with "2.IH"(4)[OF Some Transient pr[unfolded probe_parent_def fst_conv] refl Inr refl]
        show ?thesis by simp
      qed
    qed
  qed
next
  case (3 n r tok s)
  then show ?case by (auto split: option.splits sum.splits prod.splits if_splits)
next
  case (4 n r s)
  then show ?case by simp
next
  case (5 n r tok rest s)
  from "5.prems" obtain res1 s1 where r1: "resolve n r tok s = Some (res1, s1)"
    by (auto split: option.splits)
  show ?case
  proof (cases res1)
    case (Inl e1)
    with "5.prems" r1 have "e = e1" by simp
    with "5.IH"(1)[of e1 s1] r1 Inl show ?thesis by simp
  next
    case (Inr v)
    with "5.prems" r1 have "resolveAll n r rest s1 = Some (Inl e, s')"
      by (auto split: option.splits sum.splits prod.splits)
    with "5.IH"(2)[OF r1 refl Inr] show ?thesis by simp
  qed
next
  case (6 n r d s)
  from "6.prems" obtain resl s1 where ra: "resolveAll n r (requires d) s = Some (resl, s1)"
    by (auto split: option.splits)
  show ?case
  proof (cases resl)
    case (Inl e1)
    with "6.prems" ra have "e = e1" by simp
    with "6.IH"[of e1 s1] ra Inl show ?thesis by simp
  next
    case (Inr args)
    with "6.prems" ra show ?thesis
      by (cases s1) (auto split: sum.splits prod.splits)
  qed
qed

lemma distinct_map_set: "distinct (map_keys m) \<Longrightarrow> distinct (map_keys (map_set k v m))"
  by (simp add: map_keys_map_set map_has_def)

lemma provide_distinct:
  assumes "\<forall>m \<in> set h. distinct (map_keys m)" "ContainerMapKey c < length h"
    "provide c tok v h = Inr (c', h')"
  shows "\<forall>m \<in> set h'. distinct (map_keys m)"
  using assms by (auto simp: provide_result distinct_map_set)

lemma createContainer_provide_distinct:
  assumes "\<forall>m \<in> set h. distinct (map_keys m)" "createContainer_provide tok v h = Inr (c', h')"
  shows "\<forall>m \<in> set h'. distinct (map_keys m)"
  using assms by (auto simp: createContainer_provide_def heap_set_def Let_def map_keys_def)

lemma unregistered_no_edge:
  assumes "\<not> map_has m t"
  shows "(t, u) \<notin> dep_edges m" and "(t, t) \<notin> (dep_edges m)\<^sup>+"
proof -
  from assms have "map_get m t = None" by (simp add: map_has_iff_get)
  then show e: "(t, u) \<notin> dep_edges m" for u by (simp add: dep_edges_def)
  show "(t, t) \<notin> (dep_edges m)\<^sup>+"
  proof
    assume "(t, t) \<in> (dep_edges m)\<^sup>+"
    from tranclD[OF this] e show False by blast
  qed
qed

subsection \<open>Resolution returns on the stores that \<open>resolver\<close> makes\<close>

lemma uniform_bound:
  "(\<forall>x \<in> set xs. \<exists>n. \<forall>m \<ge> n. Q x m) \<Longrightarrow> \<exists>N::nat. \<forall>x \<in> set xs. \<forall>m \<ge> N. Q x m"
proof (induction xs)
  case Nil
  then show ?case by simp
next
  case (Cons x xs)
  then obtain N where N: "\<forall>y \<in> set xs. \<forall>m \<ge> N. Q y m" by auto
  from Cons.prems obtain n where n: "\<forall>m \<ge> n. Q x m" by auto
  have "\<forall>y \<in> set (x # xs). \<forall>m \<ge> max n N. Q y m"
    using N n by auto
  then show ?case by blast
qed

lemma finite_dep_edges: "finite (dep_edges m)"
proof -
  have "dep_edges m \<subseteq> fst ` set m \<times> (\<Union>e \<in> set m. set (requires (snd e)))"
  proof
    fix x assume "x \<in> dep_edges m"
    then obtain a b d where x: "x = (a, b)" and g: "map_get m a = Some d" and b: "b \<in> set (requires d)"
      by (auto simp: dep_edges_def)
    from g have "(a, d) \<in> set m" by (simp add: map_get_def map_of_SomeD)
    with b x show "x \<in> fst ` set m \<times> (\<Union>e \<in> set m. set (requires (snd e)))" by force
  qed
  then show ?thesis by (rule finite_subset) simp
qed

lemma wf_dep_edges: "\<not> dependency_cycle m \<Longrightarrow> wf ((dep_edges m)\<inverse>)"
  by (rule finite_acyclic_wf_converse) (auto simp: finite_dep_edges acyclic_def dependency_cycle_def)

lemma resolve_returns_if:
  "internalResolve k a t s \<noteq> None \<Longrightarrow> resolve k a t s \<noteq> None"
  by (auto split: option.splits sum.splits prod.splits)

lemma resolveAll_returns:
  assumes deps: "\<And>t rs' w. t \<in> set toks \<Longrightarrow> same_shape rs rs' \<Longrightarrow>
                   internalResolve k a t (rs', w) \<noteq> None"
    and v: "valid_store rs" "a < length rs"
  shows "same_shape rs rs' \<Longrightarrow> resolveAll k a toks (rs', w) \<noteq> None"
  using deps
proof (induction toks arbitrary: rs' w)
  case Nil
  show ?case by simp
next
  case (Cons t rest)
  from Cons.prems have "internalResolve k a t (rs', w) \<noteq> None" by simp
  then have "resolve k a t (rs', w) \<noteq> None" by (rule resolve_returns_if)
  then obtain res1 rs1 w1 where r1: "resolve k a t (rs', w) = Some (res1, (rs1, w1))"
    by (metis not_None_eq surj_pair)
  show ?case
  proof (cases res1)
    case (Inl e)
    with r1 show ?thesis by simp
  next
    case (Inr x)
    from Cons.prems(1) v have v': "valid_store rs'" "a < length rs'"
      by (auto simp: same_shape_valid same_shape_def)
    with r1 have "evolves a rs' rs1"
      using resolve_evolves(2)[of k a t "(rs', w)" res1 "(rs1, w1)"] by simp
    with Cons.prems(1) have "same_shape rs rs1"
      by (blast intro: same_shape_trans evolves_same_shape)
    with Cons.IH[of rs1 w1] Cons.prems(2) have "resolveAll k a rest (rs1, w1) \<noteq> None" by simp
    with r1 Inr show ?thesis by (auto split: option.splits sum.splits prod.splits)
  qed
qed

lemma instantiate_returns:
  assumes "\<And>t rs' w. t \<in> set (requires d) \<Longrightarrow> same_shape rs rs' \<Longrightarrow>
             internalResolve k a t (rs', w) \<noteq> None"
    and "valid_store rs" "a < length rs" "same_shape rs rs'"
  shows "instantiate k a d (rs', w) \<noteq> None"
proof -
  from resolveAll_returns[of "requires d" rs k a rs' w] assms
  have "resolveAll k a (requires d) (rs', w) \<noteq> None" by blast
  then show ?thesis by (auto split: option.splits sum.splits prod.splits)
qed

lemma cache_instance_returns: "out \<noteq> None \<Longrightarrow> cache_instance r tok out \<noteq> None"
  by (auto simp: cache_instance_def split: option.splits sum.splits prod.splits)

lemma probe_parent_returns:
  assumes "\<And>p rs' w. parent (rs ! a) = Some p \<Longrightarrow> same_shape rs rs' \<Longrightarrow>
             internalResolve k p tok (rs', w) \<noteq> None"
    and "a < length rs" "same_shape rs rs'"
  shows "probe_parent k a tok (rs', w) \<noteq> None"
proof (cases "parent (rs ! a)")
  case None
  with assms(2,3) have "parent (rs' ! a) = None" by (simp add: same_shape_def)
  then show ?thesis by (simp add: probe_parent_def)
next
  case (Some p)
  with assms(2,3) have "parent (rs' ! a) = Some p" by (simp add: same_shape_def)
  with assms(1)[OF Some assms(3)] show ?thesis by (simp add: probe_parent_def)
qed

lemma internalResolve_returns_step:
  assumes d: "map_get (registrations (rs ! a)) tok = Some d"
    and deps: "\<And>t rs' w. t \<in> set (requires d) \<Longrightarrow> same_shape rs rs' \<Longrightarrow>
                 internalResolve k a t (rs', w) \<noteq> None"
    and par: "\<And>p rs' w. parent (rs ! a) = Some p \<Longrightarrow> same_shape rs rs' \<Longrightarrow>
                 internalResolve k p tok (rs', w) \<noteq> None"
    and v: "valid_store rs" "a < length rs" and sh: "same_shape rs rs'"
  shows "internalResolve (Suc k) a tok (rs', w) \<noteq> None"
proof -
  from d v sh have d': "map_get (registrations (rs' ! a)) tok = Some d"
    by (simp add: same_shape_def)
  from sh v have v': "valid_store rs'" "a < length rs'"
    by (auto simp: same_shape_valid same_shape_def)
  have inst: "instantiate k a d (rs1, w1) \<noteq> None" if "same_shape rs rs1" for rs1 w1
    using deps v that by (rule instantiate_returns)
  have ci: "cache_instance a tok (instantiate k a d (rs1, w1)) \<noteq> None"
    if "same_shape rs rs1" for rs1 w1
    using inst[OF that] by (rule cache_instance_returns)
  have probe: "probe_parent k a tok (rs', w) \<noteq> None"
    using par v(2) sh by (rule probe_parent_returns)
  show ?thesis
  proof (cases "lifetime d")
    case Scoped
    with d' ci[OF sh, of w] show ?thesis
      by (simp add: internalResolve_scoped
          del: internalResolve.simps instantiate.simps)
  next
    case Singleton
    from probe obtain res1 rs1 w1 where pr: "probe_parent k a tok (rs', w) = Some (res1, (rs1, w1))"
      by (metis not_None_eq surj_pair)
    from pr v' have "evolves a rs' rs1" by (rule probe_parent_evolves)
    with sh have "same_shape rs rs1" by (blast intro: same_shape_trans evolves_same_shape)
    from ci[OF this, of w1] d' Singleton pr show ?thesis
      by (cases res1)
        (simp_all add: internalResolve_singleton
          del: internalResolve.simps instantiate.simps)
  next
    case Transient
    from probe obtain res1 rs1 w1 where pr: "probe_parent k a tok (rs', w) = Some (res1, (rs1, w1))"
      by (metis not_None_eq surj_pair)
    from pr v' have "evolves a rs' rs1" by (rule probe_parent_evolves)
    with sh have "same_shape rs rs1" by (blast intro: same_shape_trans evolves_same_shape)
    from inst[OF this, of w1] d' Transient pr show ?thesis
      by (cases res1)
        (simp_all add: internalResolve_transient
          del: internalResolve.simps instantiate.simps)
  qed
qed

lemma internalResolve_terminates:
  assumes v: "valid_store rs"
    and ac: "\<forall>a < length rs. \<not> dependency_cycle (registrations (rs ! a))"
  shows "a < length rs \<Longrightarrow>
           \<exists>n. \<forall>m \<ge> n. \<forall>rs' w. same_shape rs rs' \<longrightarrow> internalResolve m a tok (rs', w) \<noteq> None"
proof (induction a arbitrary: tok rule: less_induct)
  case (less a)
  note outer = less.IH and a = less.prems
  let ?E = "dep_edges (registrations (rs ! a))"
  from ac a have "wf (?E\<inverse>)" by (simp add: wf_dep_edges)
  then show ?case
  proof (induction tok rule: wf_induct_rule)
    case (less tok)
    note inner = less.IH
    show ?case
    proof (cases "map_get (registrations (rs ! a)) tok")
      case None
      have "\<forall>m \<ge> Suc 0. \<forall>rs' w. same_shape rs rs' \<longrightarrow> internalResolve m a tok (rs', w) \<noteq> None"
      proof (intro allI impI)
        fix m rs' w assume m: "Suc 0 \<le> m" and sh: "same_shape rs rs'"
        from m obtain k where k: "m = Suc k" by (cases m) auto
        from sh None a have "map_get (registrations (rs' ! a)) tok = None"
          by (simp add: same_shape_def)
        with k show "internalResolve m a tok (rs', w) \<noteq> None" by simp
      qed
      then show ?thesis by blast
    next
      case (Some d)
      have "\<forall>t \<in> set (requires d). \<exists>n. \<forall>m \<ge> n. \<forall>rs' w. same_shape rs rs' \<longrightarrow>
              internalResolve m a t (rs', w) \<noteq> None"
      proof
        fix t assume "t \<in> set (requires d)"
        with Some have "(t, tok) \<in> ?E\<inverse>" by (auto simp: dep_edges_def)
        then show "\<exists>n. \<forall>m \<ge> n. \<forall>rs' w. same_shape rs rs' \<longrightarrow>
              internalResolve m a t (rs', w) \<noteq> None" by (rule inner)
      qed
      from uniform_bound[OF this] obtain N where
        N: "\<forall>t \<in> set (requires d). \<forall>m \<ge> N. \<forall>rs' w. same_shape rs rs' \<longrightarrow>
              internalResolve m a t (rs', w) \<noteq> None" by blast
      have "\<exists>M. \<forall>p. parent (rs ! a) = Some p \<longrightarrow>
              (\<forall>m \<ge> M. \<forall>rs' w. same_shape rs rs' \<longrightarrow> internalResolve m p tok (rs', w) \<noteq> None)"
      proof (cases "parent (rs ! a)")
        case None
        then show ?thesis by simp
      next
        case p: (Some p)
        with v a have "p < a" by (auto simp: valid_store_def)
        with a outer[of p tok]
        obtain M where "\<forall>m \<ge> M. \<forall>rs' w. same_shape rs rs' \<longrightarrow>
              internalResolve m p tok (rs', w) \<noteq> None" by auto
        with p show ?thesis by auto
      qed
      then obtain M where
        M: "\<forall>p. parent (rs ! a) = Some p \<longrightarrow>
              (\<forall>m \<ge> M. \<forall>rs' w. same_shape rs rs' \<longrightarrow> internalResolve m p tok (rs', w) \<noteq> None)"
        by blast
      have "\<forall>m \<ge> Suc (max N M). \<forall>rs' w. same_shape rs rs' \<longrightarrow>
              internalResolve m a tok (rs', w) \<noteq> None"
      proof (intro allI impI)
        fix m rs' w assume m: "Suc (max N M) \<le> m" and sh: "same_shape rs rs'"
        from m obtain k where k: "m = Suc k" "N \<le> k" "M \<le> k" by (cases m) auto
        have "internalResolve (Suc k) a tok (rs', w) \<noteq> None"
          using Some _ _ v a sh
        proof (rule internalResolve_returns_step)
          fix t rs'' w' assume "t \<in> set (requires d)" "same_shape rs rs''"
          with N k(2) show "internalResolve k a t (rs'', w') \<noteq> None" by blast
        next
          fix p rs'' w' assume "parent (rs ! a) = Some p" "same_shape rs rs''"
          with M k(3) show "internalResolve k p tok (rs'', w') \<noteq> None" by blast
        qed
        with k(1) show "internalResolve m a tok (rs', w) \<noteq> None" by simp
      qed
      then show ?thesis by blast
    qed
  qed
qed

lemma wf_store_empty: "wf_store []"
  by (simp add: wf_store_def valid_store_def keys_inherited_def)

lemma wf_store_same_shape:
  assumes "wf_store rs" "same_shape rs rs'"
  shows "wf_store rs'"
proof -
  from assms have v: "valid_store rs" and k: "keys_inherited rs"
    and ac: "\<forall>a < length rs. \<not> dependency_cycle (registrations (rs ! a))"
    by (simp_all add: wf_store_def)
  from assms(2) have len: "length rs' = length rs"
    and eq: "\<And>a. a < length rs \<Longrightarrow> registrations (rs' ! a) = registrations (rs ! a)
                                   \<and> parent (rs' ! a) = parent (rs ! a)"
    by (simp_all add: same_shape_def)
  have "keys_inherited rs'"
    unfolding keys_inherited_def
  proof (intro allI impI)
    fix a p assume a: "a < length rs'" and p: "parent (rs' ! a) = Some p"
    with len eq have p': "parent (rs ! a) = Some p" and a': "a < length rs" by simp_all
    with v have "p < length rs" by (auto simp: valid_store_def)
    with a' p' k eq show "set (map_keys (registrations (rs' ! p)))
                            \<subseteq> set (map_keys (registrations (rs' ! a)))"
      by (simp add: keys_inherited_def)
  qed
  moreover from v assms(2) have "valid_store rs'" by (simp add: same_shape_valid)
  moreover from ac len eq have "\<forall>a < length rs'. \<not> dependency_cycle (registrations (rs' ! a))"
    by simp
  ultimately show ?thesis by (simp add: wf_store_def)
qed

lemma resolver_wf_store:
  assumes wf: "wf_store rs"
    and dk: "distinct (map_keys (container_map h c))"
    and par: "\<forall>p. par = Some p \<longrightarrow> p < length rs"
    and run: "resolver c par h rs = Inr (a, rs')"
  shows "wf_store rs' \<and> a < length rs' \<and> rs' ! a = \<lparr>registrations = container_map h c, parent = par, cache = []\<rparr>"
proof -
  let ?m = "container_map h c"
  let ?new = "\<lparr>registrations = ?m, parent = par, cache = []\<rparr> :: 'a InternalResolver"
  from run dk have res: "a = length rs" "rs' = rs @ [?new]"
    and ac: "\<not> dependency_cycle ?m"
    and inh: "\<forall>p. par = Some p \<longrightarrow>
                set (map_keys (registrations (rs ! p))) \<subseteq> set (map_keys ?m)"
    by (auto simp: resolver_def checkForCycles_iff container_map_def Let_def
        InternalCheckInheriting_result split: option.splits if_splits)
  have nth: "rs' ! b = (if b < length rs then rs ! b else ?new)" if "b < length rs'" for b
    using that res(2) by (auto simp: nth_append less_Suc_eq)
  have len: "length rs' = Suc (length rs)" using res(2) by simp
  have "valid_store rs'"
    unfolding valid_store_def
  proof (intro allI impI)
    fix b p assume b: "b < length rs'" and p: "parent (rs' ! b) = Some p"
    show "p < b"
    proof (cases "b < length rs")
      case True
      with b p nth wf show ?thesis by (simp add: wf_store_def valid_store_def)
    next
      case False
      with b len have "b = length rs" by simp
      with b p nth par show ?thesis by simp
    qed
  qed
  moreover have "keys_inherited rs'"
    unfolding keys_inherited_def
  proof (intro allI impI)
    fix b p assume b: "b < length rs'" and p: "parent (rs' ! b) = Some p"
    from \<open>valid_store rs'\<close> b p have pb: "p < b" by (simp add: valid_store_def)
    with b len have pl: "p < length rs" by simp
    show "set (map_keys (registrations (rs' ! p))) \<subseteq> set (map_keys (registrations (rs' ! b)))"
    proof (cases "b < length rs")
      case True
      with b p pl nth len wf show ?thesis
        by (simp add: wf_store_def keys_inherited_def)
    next
      case False
      with b len have "b = length rs" by simp
      with b p pl nth len inh show ?thesis by simp
    qed
  qed
  moreover have "\<forall>b < length rs'. \<not> dependency_cycle (registrations (rs' ! b))"
  proof (intro allI impI)
    fix b assume b: "b < length rs'"
    show "\<not> dependency_cycle (registrations (rs' ! b))"
    proof (cases "b < length rs")
      case True
      with b nth wf show ?thesis by (simp add: wf_store_def)
    next
      case False
      with b nth ac show ?thesis by simp
    qed
  qed
  ultimately have "wf_store rs'" by (simp add: wf_store_def)
  with res len nth[of a] show ?thesis by simp
qed

lemma resolve_terminates:
  assumes "wf_store rs" "r < length rs"
  shows "\<exists>n. \<forall>m \<ge> n. \<forall>w. \<exists>res rs' w'.
           resolve m r tok (rs, w) = Some (res, (rs', w'))
           \<and> res \<noteq> Inl CyclicDependency \<and> wf_store rs'"
proof -
  from assms have v: "valid_store rs"
    and ac: "\<forall>a < length rs. \<not> dependency_cycle (registrations (rs ! a))"
    by (simp_all add: wf_store_def)
  from internalResolve_terminates[OF v ac assms(2), of tok] obtain n where
    n: "\<forall>m \<ge> n. \<forall>rs' w. same_shape rs rs' \<longrightarrow> internalResolve m r tok (rs', w) \<noteq> None"
    by blast
  have "\<exists>res rs' w'. resolve m r tok (rs, w) = Some (res, (rs', w'))
           \<and> res \<noteq> Inl CyclicDependency \<and> wf_store rs'" if "n \<le> m" for m w
  proof -
    from n that have "internalResolve m r tok (rs, w) \<noteq> None"
      using same_shape_refl by blast
    then have "resolve m r tok (rs, w) \<noteq> None" by (rule resolve_returns_if)
    then obtain res rs' w' where run: "resolve m r tok (rs, w) = Some (res, (rs', w'))"
      by (metis not_None_eq surj_pair)
    with v assms(2) have "evolves r rs rs'"
      using resolve_evolves(2)[of m r tok "(rs, w)" res "(rs', w')"] by simp
    with assms(1) have "wf_store rs'"
      by (blast intro: wf_store_same_shape evolves_same_shape)
    moreover from run resolve_errors(2)[of m r tok "(rs, w)" CyclicDependency "(rs', w')"]
    have "res \<noteq> Inl CyclicDependency" by auto
    ultimately show ?thesis using run by blast
  qed
  then show ?thesis by blast
qed

text \<open>
  C2. For a registry (a \<open>Map\<close>, its tokens distinct), \<open>resolver()\<close> ends in
  \<open>CyclicDependency\<close> exactly when the graph of the registry has a cycle, and makes the
  resolver otherwise; with a parent, exactly when the inheritance check has passed and the
  graph has a cycle. No \<open>resolve\<close> ever ends in \<open>CyclicDependency\<close>; and on a store that
  \<open>resolver\<close> has made, which \<open>resolver\<close> extends to another such store, every \<open>resolve\<close>
  returns, given enough fuel, with a value or an error other than \<open>CyclicDependency\<close>. A
  token without a registration has no outgoing edge and lies on no cycle.
\<close>

theorem resolver_cycle_check:
  assumes "distinct (map_keys (container_map h c))"
  shows "(resolver c None h rs = Inl CyclicDependency \<longleftrightarrow> dependency_cycle (container_map h c))
         \<and> (\<forall>p. resolver c (Some p) h rs = Inl CyclicDependency \<longleftrightarrow>
               set (map_keys (registrations (rs ! p))) \<subseteq> set (map_keys (container_map h c))
               \<and> dependency_cycle (container_map h c))
         \<and> (\<not> dependency_cycle (container_map h c) \<longrightarrow>
               resolver c None h rs
                 = Inr (length rs,
                        rs @ [\<lparr>registrations = container_map h c, parent = None, cache = []\<rparr>]))
         \<and> (\<forall>n r tok s s'. resolve n r tok (s :: 'w state) \<noteq> Some (Inl CyclicDependency, s'))
         \<and> (wf_store rs \<longrightarrow>
               (\<forall>par a rs'. (\<forall>p. par = Some p \<longrightarrow> p < length rs)
                    \<and> resolver c par h rs = Inr (a, rs') \<longrightarrow> wf_store rs')
               \<and> (\<forall>r tok. r < length rs \<longrightarrow>
                     (\<exists>n. \<forall>m \<ge> n. \<forall>w. \<exists>res rs' w'.
                        resolve m r tok (rs, w) = Some (res, (rs', w'))
                        \<and> res \<noteq> Inl CyclicDependency \<and> wf_store rs')))
         \<and> (\<forall>t. \<not> map_has (container_map h c) t \<longrightarrow>
               (\<forall>u. (t, u) \<notin> dep_edges (container_map h c))
               \<and> (t, t) \<notin> (dep_edges (container_map h c))\<^sup>+)"
proof (intro conjI allI impI)
  show "resolver c None h rs = Inl CyclicDependency \<longleftrightarrow> dependency_cycle (container_map h c)"
    using assms by (simp add: resolver_def checkForCycles_iff container_map_def Let_def)
next
  fix p
  show "resolver c (Some p) h rs = Inl CyclicDependency \<longleftrightarrow>
               set (map_keys (registrations (rs ! p))) \<subseteq> set (map_keys (container_map h c))
               \<and> dependency_cycle (container_map h c)"
    using assms
    by (simp add: resolver_def checkForCycles_iff container_map_def InternalCheckInheriting_result Let_def)
next
  assume "\<not> dependency_cycle (container_map h c)"
  with assms show "resolver c None h rs
                 = Inr (length rs,
                        rs @ [\<lparr>registrations = container_map h c, parent = None, cache = []\<rparr>])"
    by (simp add: resolver_def checkForCycles_iff container_map_def Let_def)
next
  fix n r tok and s s' :: "'w state"
  show "resolve n r tok s \<noteq> Some (Inl CyclicDependency, s')"
    using resolve_errors(2)[of n r tok s CyclicDependency s'] by auto
next
  fix par a rs'
  assume "wf_store rs"
    and "(\<forall>p. par = Some p \<longrightarrow> p < length rs) \<and> resolver c par h rs = Inr (a, rs')"
  with assms show "wf_store rs'" using resolver_wf_store[of rs h c par a rs'] by blast
next
  fix r tok
  assume "wf_store rs" "r < length rs"
  then show "\<exists>n. \<forall>m \<ge> n. \<forall>w. \<exists>res rs' w'.
                        resolve m r tok (rs, w) = Some (res, (rs', w'))
                        \<and> res \<noteq> Inl CyclicDependency \<and> wf_store rs'"
    by (rule resolve_terminates)
next
  fix t u assume "\<not> map_has (container_map h c) t"
  then show "(t, u) \<notin> dep_edges (container_map h c)" by (rule unregistered_no_edge)
next
  fix t assume "\<not> map_has (container_map h c) t"
  then show "(t, t) \<notin> (dep_edges (container_map h c))\<^sup>+" by (rule unregistered_no_edge)
qed

theorem resolver_cycle_check_witness:
  "distinct (map_keys (container_map [[(0, svc [0, 1] Singleton)]] (createInnerContainer [0, 1] [0] 0)))
   \<and> resolver (createInnerContainer [0, 1] [0] 0) None [[(0, svc [0, 1] Singleton)]] []
        = Inl CyclicDependency
   \<and> dependency_cycle (container_map [[(0, svc [0, 1] Singleton)]] (createInnerContainer [0, 1] [0] 0))
   \<and> \<not> map_has (container_map [[(0, svc [0, 1] Singleton)]] (createInnerContainer [0, 1] [0] 0)) 1
   \<and> (1, 1) \<notin> (dep_edges (container_map [[(0, svc [0, 1] Singleton)]]
                   (createInnerContainer [0, 1] [0] 0)))\<^sup>+"
proof -
  let ?h = "[[(0, svc [0, 1] Singleton)]]"
  let ?c = "createInnerContainer [0, 1] [0] 0"
  have d: "distinct (map_keys (container_map ?h ?c))"
    by (simp add: container_map_def createInnerContainer_def map_keys_def)
  have g: "graphFromServiceMap [(0, svc [0, 1] Singleton)] = [(0, [0, 1])]"
    by (simp add: graphFromServiceMap_def svc_def makeServiceDefinition_def)
  have "isCyclic [(0, [0, 1])]"
    by (simp add: isCyclic_def map_keys_def neighbors_def map_get_def)
  with g have r: "resolver ?c None ?h ([] :: nat resolvers) = Inl CyclicDependency"
    by (simp add: resolver_def checkForCycles_def createInnerContainer_def Let_def)
  have m: "\<not> map_has (container_map ?h ?c) 1"
    by (simp add: container_map_def createInnerContainer_def map_has_def map_keys_def)
  from resolver_cycle_check [OF d, of "[]"] r
  have c: "dependency_cycle (container_map ?h ?c)" by blast
  from resolver_cycle_check [OF d, of "[]"] m
  have "(1, 1) \<notin> (dep_edges (container_map ?h ?c))\<^sup>+" by blast
  with d r c m show ?thesis by blast
qed

end
